theory Spec2Isabelle
  imports Main
begin

section \<open>Data model of \<open>src/src/App.tsx\<close>\<close>

text \<open>
  \<open>Square = "X" | "O" | null\<close>: the two marks are a datatype (\<open>O\<close> alone is
  HOL's relation composition, hence the prefix), \<open>null\<close> is \<open>None\<close>.
  A \<open>Board\<close> is a JavaScript array of squares, of any length as far as the type goes.
\<close>

datatype Player = PlayerX | PlayerO

type_synonym Square = "Player option"

type_synonym Board = "Square list"

text \<open>
  The JavaScript numbers the search computes with: the integers and the two infinities
  that initialise the bounds, ordered as JavaScript orders them.
\<close>

datatype num = NegInfinity | Num int | Infinity

instantiation num :: linorder
begin

fun less_eq_num :: "num \<Rightarrow> num \<Rightarrow> bool" where
  "less_eq_num NegInfinity _ = True"
| "less_eq_num (Num _) NegInfinity = False"
| "less_eq_num (Num i) (Num j) = (i \<le> j)"
| "less_eq_num (Num _) Infinity = True"
| "less_eq_num Infinity Infinity = True"
| "less_eq_num Infinity _ = False"

definition less_num :: "num \<Rightarrow> num \<Rightarrow> bool" where
  "less_num a b = (a \<le> b \<and> \<not> b \<le> a)"

instance
proof
  fix x y z :: num
  show "(x < y) = (x \<le> y \<and> \<not> y \<le> x)" by (simp add: less_num_def)
  show "x \<le> x" by (cases x) simp_all
  show "x \<le> y \<Longrightarrow> y \<le> z \<Longrightarrow> x \<le> z" by (cases x; cases y; cases z) simp_all
  show "x \<le> y \<Longrightarrow> y \<le> x \<Longrightarrow> x = y" by (cases x; cases y) simp_all
  show "x \<le> y \<or> y \<le> x" by (cases x; cases y) auto
qed

end

lemma le_Infinity [simp]: "x \<le> Infinity"
  by (cases x) simp_all

lemma less_num_simps [simp]:
  "NegInfinity < Num i" "Num i < Infinity" "NegInfinity < Infinity"
  "(Num i < Num j) = (i < j)" "\<not> x < NegInfinity" "\<not> Infinity < x"
  by (cases x; auto simp: less_num_def)+

lemma Infinity_le_iff [simp]: "Infinity \<le> x \<longleftrightarrow> x = Infinity"
  by (cases x) simp_all

lemma le_NegInfinity_iff [simp]: "x \<le> NegInfinity \<longleftrightarrow> x = NegInfinity"
  by (cases x) simp_all

text \<open>The one exception the game logic throws: \<open>new Error("Invalid move")\<close>.\<close>

datatype error = InvalidMove

text \<open>\<open>type MoveResult = { value: number; move: number | null }\<close>\<close>

record MoveResult =
  "value" :: num
  move :: "int option"

section \<open>Game logic\<close>

definition initialBoard :: Board where
  "initialBoard = replicate 9 None"

definition getCurrentPlayer :: "Board \<Rightarrow> Player" where
  "getCurrentPlayer board =
     (let xCount = length (filter (\<lambda>sq. sq = Some PlayerX) board);
          oCount = length (filter (\<lambda>sq. sq = Some PlayerO) board)
      in if xCount = oCount then PlayerX else PlayerO)"

text \<open>
  \<open>board.reduce((acc, sq, idx) => ..., [])\<close>: the callback runs left to right with the
  running index, and pushes the index of each \<open>null\<close> square.
\<close>

fun availableMoves_reduce :: "Board \<Rightarrow> int \<Rightarrow> int list \<Rightarrow> int list" where
  "availableMoves_reduce [] idx acc = acc"
| "availableMoves_reduce (sq # rest) idx acc =
     availableMoves_reduce rest (idx + 1) (if sq = None then acc @ [idx] else acc)"

definition availableMoves :: "Board \<Rightarrow> int list" where
  "availableMoves board = availableMoves_reduce board 0 []"

text \<open>
  The array read \<open>board[i]\<close>: outside the array JavaScript yields \<open>undefined\<close>, here the
  outer \<open>None\<close>; inside it yields the square, which may itself be \<open>null\<close>.
\<close>

definition at :: "Board \<Rightarrow> int \<Rightarrow> Square option" where
  "at board i = (if 0 \<le> i \<and> i < int (length board) then Some (board ! nat i) else None)"

text \<open>
  \<open>applyMove\<close> throws unless \<open>board[move] === null\<close>; an \<open>undefined\<close> read is not
  \<open>null\<close>, so it throws as well. Otherwise it writes into a copy.
\<close>

definition applyMove :: "Board \<Rightarrow> int \<Rightarrow> Player \<Rightarrow> error + Board" where
  "applyMove board mv player =
     (if at board mv \<noteq> Some None then Inl InvalidMove
      else Inr (board[nat mv := Some player]))"

definition winningLines :: "int list list" where
  "winningLines =
     [[0, 1, 2], [3, 4, 5], [6, 7, 8],
      [0, 3, 6], [1, 4, 7], [2, 5, 8],
      [0, 4, 8], [2, 4, 6]]"

text \<open>
  The test \<open>board[a] && board[a] === board[b] && board[a] === board[c]\<close>: the first
  conjunct holds only for a mark (\<open>null\<close> and \<open>undefined\<close> are falsy).
\<close>

definition lineWon :: "Board \<Rightarrow> int list \<Rightarrow> bool" where
  "lineWon board line =
     (case at board (line ! 0) of
        Some (Some p) \<Rightarrow> at board (line ! 0) = at board (line ! 1)
                          \<and> at board (line ! 0) = at board (line ! 2)
      | _ \<Rightarrow> False)"

fun calculateWinner_loop :: "Board \<Rightarrow> int list list \<Rightarrow> Square" where
  "calculateWinner_loop board [] = None"
| "calculateWinner_loop board (line # lines) =
     (if lineWon board line then board ! nat (line ! 0)
      else calculateWinner_loop board lines)"

definition calculateWinner :: "Board \<Rightarrow> Square" where
  "calculateWinner board = calculateWinner_loop board winningLines"

definition terminal :: "Board \<Rightarrow> bool" where
  "terminal board = (calculateWinner board \<noteq> None \<or> list_all (\<lambda>sq. sq \<noteq> None) board)"

definition utility :: "Board \<Rightarrow> num" where
  "utility board =
     (let win = calculateWinner board
      in if win = Some PlayerX then Num 1 else if win = Some PlayerO then Num (- 1) else Num 0)"

section \<open>Minimax with alpha-beta pruning\<close>

definition emptyCount :: "Board \<Rightarrow> nat" where
  "emptyCount board = length (filter (\<lambda>sq. sq = None) board)"

lemma emptyCount_update:
  "n < length board \<Longrightarrow> board ! n = None \<Longrightarrow>
   emptyCount (board[n := Some p]) < emptyCount board"
proof (induction board arbitrary: n)
  case Nil
  then show ?case by simp
next
  case (Cons sq rest)
  show ?case
  proof (cases n)
    case 0
    with Cons.prems show ?thesis by (simp add: emptyCount_def)
  next
    case (Suc k)
    with Cons.prems have "emptyCount (rest[k := Some p]) < emptyCount rest"
      by (intro Cons.IH) simp_all
    with Suc show ?thesis by (simp add: emptyCount_def)
  qed
qed

lemma applyMove_Inr_iff:
  "applyMove board mv player = Inr nextBoard \<longleftrightarrow>
   0 \<le> mv \<and> nat mv < length board \<and> board ! nat mv = None
   \<and> nextBoard = board[nat mv := Some player]"
  by (auto simp: applyMove_def at_def)

lemma applyMove_emptyCount:
  "applyMove board mv player = Inr nextBoard \<Longrightarrow> emptyCount nextBoard < emptyCount board"
  by (simp add: applyMove_Inr_iff emptyCount_update)

text \<open>The measure of the search: the empty squares, then the moves still to try.\<close>

definition searchMeasure ::
  "((Board \<times> num \<times> num) + (Board \<times> int list \<times> num \<times> num \<times> num \<times> int option))
     + ((Board \<times> num \<times> num) + (Board \<times> int list \<times> num \<times> num \<times> num \<times> int option))
   \<Rightarrow> nat \<times> nat" where
  "searchMeasure s =
     (case s of
        Inl (Inl (b, _)) \<Rightarrow> (emptyCount b, Suc (length (availableMoves b)))
      | Inl (Inr (b, ms, _)) \<Rightarrow> (emptyCount b, length ms)
      | Inr (Inl (b, _)) \<Rightarrow> (emptyCount b, Suc (length (availableMoves b)))
      | Inr (Inr (b, ms, _)) \<Rightarrow> (emptyCount b, length ms))"

text \<open>
  The two evaluators. Each \<open>for ... of\<close> loop is a function of its own over the moves
  still to try, carrying the loop's variables \<open>alpha\<close>/\<open>beta\<close>, \<open>v\<close> and \<open>bestMove\<close>;
  \<open>break\<close> returns at once. An exception of \<open>applyMove\<close> propagates.
\<close>

function maxValueAB :: "Board \<Rightarrow> num \<Rightarrow> num \<Rightarrow> error + MoveResult"
  and maxValueAB_loop :: "Board \<Rightarrow> int list \<Rightarrow> num \<Rightarrow> num \<Rightarrow> num \<Rightarrow> int option \<Rightarrow> error + MoveResult"
  and minValueAB :: "Board \<Rightarrow> num \<Rightarrow> num \<Rightarrow> error + MoveResult"
  and minValueAB_loop :: "Board \<Rightarrow> int list \<Rightarrow> num \<Rightarrow> num \<Rightarrow> num \<Rightarrow> int option \<Rightarrow> error + MoveResult"
where
  "maxValueAB board alpha beta =
     (if terminal board then Inr \<lparr>value = utility board, move = None\<rparr>
      else maxValueAB_loop board (availableMoves board) alpha beta NegInfinity None)"
| "maxValueAB_loop board [] alpha beta v bestMove = Inr \<lparr>value = v, move = bestMove\<rparr>"
| "maxValueAB_loop board (mv # rest) alpha beta v bestMove =
     (case applyMove board mv PlayerX of
        Inl e \<Rightarrow> Inl e
      | Inr nextBoard \<Rightarrow>
          (case minValueAB nextBoard alpha beta of
             Inl e \<Rightarrow> Inl e
           | Inr r \<Rightarrow>
               (let minVal = value r;
                    v' = (if minVal > v then minVal else v);
                    bestMove' = (if minVal > v then Some mv else bestMove);
                    alpha' = max alpha v'
                in if alpha' \<ge> beta then Inr \<lparr>value = v', move = bestMove'\<rparr>
                   else maxValueAB_loop board rest alpha' beta v' bestMove')))"
| "minValueAB board alpha beta =
     (if terminal board then Inr \<lparr>value = utility board, move = None\<rparr>
      else minValueAB_loop board (availableMoves board) alpha beta Infinity None)"
| "minValueAB_loop board [] alpha beta v bestMove = Inr \<lparr>value = v, move = bestMove\<rparr>"
| "minValueAB_loop board (mv # rest) alpha beta v bestMove =
     (case applyMove board mv PlayerO of
        Inl e \<Rightarrow> Inl e
      | Inr nextBoard \<Rightarrow>
          (case maxValueAB nextBoard alpha beta of
             Inl e \<Rightarrow> Inl e
           | Inr r \<Rightarrow>
               (let maxVal = value r;
                    v' = (if maxVal < v then maxVal else v);
                    bestMove' = (if maxVal < v then Some mv else bestMove);
                    beta' = min beta v'
                in if alpha \<ge> beta' then Inr \<lparr>value = v', move = bestMove'\<rparr>
                   else minValueAB_loop board rest alpha beta' v' bestMove')))"
  by pat_completeness auto

termination
  by (relation "inv_image (less_than <*lex*> less_than) searchMeasure")
     (auto simp: searchMeasure_def dest: applyMove_emptyCount)

definition minimaxAB :: "Board \<Rightarrow> Player \<Rightarrow> error + int option" where
  "minimaxAB board currentPlayer =
     (if currentPlayer = PlayerX then map_sum id move (maxValueAB board NegInfinity Infinity)
      else map_sum id move (minValueAB board NegInfinity Infinity))"

section \<open>The interface as the integrating component uses it\<close>

text \<open>
  The array-level reading of \<open>applyMove\<close>: boards live in a store, a reference is an
  index into it. \<open>board.slice()\<close> allocates a fresh array holding a copy, and the one
  assignment writes into that copy only.
\<close>

type_synonym heap = "Board list"

definition applyMove_heap :: "heap \<Rightarrow> nat \<Rightarrow> int \<Rightarrow> Player \<Rightarrow> error + (nat \<times> heap)" where
  "applyMove_heap h board mv player =
     (if at (h ! board) mv \<noteq> Some None then Inl InvalidMove
      else (let newBoard = length h;
                h1 = h @ [h ! board];
                h2 = h1[newBoard := (h1 ! newBoard)[nat mv := Some player]]
            in Inr (newBoard, h2)))"

text \<open>
  One step of a game in which the engine plays \<open>engine\<close>, as \<open>BoardComponent\<close> drives
  it: on the engine's turn the move is \<open>minimaxAB\<close>'s, on the other turn any empty
  square (\<open>handleClick\<close>); nobody moves on a terminal board.
\<close>

inductive gameStep :: "Player \<Rightarrow> Board \<Rightarrow> Board \<Rightarrow> bool" for engine :: Player where
  engineMove:
    "\<not> terminal board \<Longrightarrow> getCurrentPlayer board = engine \<Longrightarrow>
     minimaxAB board engine = Inr (Some mv) \<Longrightarrow> applyMove board mv engine = Inr board' \<Longrightarrow>
     gameStep engine board board'"
| opponentMove:
    "\<not> terminal board \<Longrightarrow> getCurrentPlayer board \<noteq> engine \<Longrightarrow>
     applyMove board mv (getCurrentPlayer board) = Inr board' \<Longrightarrow>
     gameStep engine board board'"

inductive finishedGame :: "Player \<Rightarrow> Board \<Rightarrow> Board \<Rightarrow> bool" for engine :: Player where
  finished: "terminal board \<Longrightarrow> finishedGame engine board board"
| played: "gameStep engine board board' \<Longrightarrow> finishedGame engine board' final \<Longrightarrow>
           finishedGame engine board final"

text \<open>Boards of alternating play from the empty board, X first.\<close>

inductive reachable :: "Board \<Rightarrow> bool" where
  start: "reachable initialBoard"
| step: "reachable board \<Longrightarrow> \<not> terminal board \<Longrightarrow>
         applyMove board mv (getCurrentPlayer board) = Inr board' \<Longrightarrow> reachable board'"

text \<open>The invariant of the data model: X has as many marks as O, or one more.\<close>

definition alternating :: "Board \<Rightarrow> bool" where
  "alternating board =
     (let xCount = length (filter (\<lambda>sq. sq = Some PlayerX) board);
          oCount = length (filter (\<lambda>sq. sq = Some PlayerO) board)
      in xCount = oCount \<or> xCount = oCount + 1)"

section \<open>The specification's reading of the winner scan\<close>

definition rows :: "int list list" where
  "rows = map (\<lambda>r. [3 * r, 3 * r + 1, 3 * r + 2]) [0, 1, 2]"

definition columns :: "int list list" where
  "columns = map (\<lambda>c. [c, c + 3, c + 6]) [0, 1, 2]"

definition diagonals :: "int list list" where
  "diagonals = [[0, 4, 8], [2, 4, 6]]"

text \<open>The mark that occupies every cell of a line, if there is one.\<close>

definition lineMark :: "Board \<Rightarrow> int list \<Rightarrow> Square" where
  "lineMark board line =
     (if list_all (\<lambda>i. at board i = Some (Some PlayerX)) line then Some PlayerX
      else if list_all (\<lambda>i. at board i = Some (Some PlayerO)) line then Some PlayerO
      else None)"

text \<open>The mark of the first line, in the order given, that one mark occupies.\<close>

definition firstLineMark :: "Board \<Rightarrow> int list list \<Rightarrow> Square" where
  "firstLineMark board lines =
     (case find (\<lambda>line. lineMark board line \<noteq> None) lines of
        None \<Rightarrow> None
      | Some line \<Rightarrow> lineMark board line)"

section \<open>Facts about the board model\<close>

lemma availableMoves_reduce_eq:
  "availableMoves_reduce board idx acc =
     acc @ map (\<lambda>i. idx + int i) (filter (\<lambda>i. board ! i = None) [0..<length board])"
proof (induction board arbitrary: idx acc)
  case Nil
  show ?case by simp
next
  case (Cons sq rest)
  have upt: "[0..<length (sq # rest)] = 0 # map Suc [0..<length rest]"
    by (simp add: upt_conv_Cons map_Suc_upt del: upt_Suc)
  have f: "filter (\<lambda>i. (x # rest) ! i = None) (map Suc [0..<length rest])
        = map Suc (filter (\<lambda>i. rest ! i = None) [0..<length rest])" for x
    by (simp add: filter_map comp_def)
  show ?case
    unfolding upt by (simp add: Cons.IH f comp_def add.assoc del: upt_Suc)
qed

lemma availableMoves_eq:
  "availableMoves board = map int (filter (\<lambda>i. board ! i = None) [0..<length board])"
  by (simp add: availableMoves_def availableMoves_reduce_eq)

lemma availableMoves_iff: "mv \<in> set (availableMoves board) \<longleftrightarrow> at board mv = Some None"
proof
  assume "mv \<in> set (availableMoves board)"
  then show "at board mv = Some None"
    by (auto simp: availableMoves_eq at_def)
next
  assume a: "at board mv = Some None"
  then have "0 \<le> mv" "nat mv < length board" "board ! nat mv = None"
    by (auto simp: at_def split: if_splits)
  then show "mv \<in> set (availableMoves board)"
    unfolding availableMoves_eq set_map by (auto simp: image_iff intro!: bexI[of _ "nat mv"])
qed

lemma availableMoves_sorted: "sorted_wrt (<) (availableMoves board)"
proof -
  have "sorted_wrt (<) (filter (\<lambda>i. board ! i = None) [0..<length board])"
    by (intro sorted_wrt_filter) (simp add: sorted_wrt_upt)
  then show ?thesis
    by (simp add: availableMoves_eq sorted_wrt_map)
qed

lemma availableMoves_Nil_iff:
  "availableMoves board = [] \<longleftrightarrow> list_all (\<lambda>sq. sq \<noteq> None) board"
  by (auto simp: availableMoves_eq filter_empty_conv list_all_length)

lemma applyMove_available:
  "mv \<in> set (availableMoves board) \<Longrightarrow>
   applyMove board mv player = Inr (board[nat mv := Some player])"
  by (simp add: availableMoves_iff applyMove_def)

lemma not_terminal_moves: "\<not> terminal board \<Longrightarrow> availableMoves board \<noteq> []"
  by (simp add: terminal_def availableMoves_Nil_iff)

section \<open>Unpruned minimax, as the specification words it\<close>

text \<open>
  The reference the pruned search is compared with: every child of a position is
  evaluated, in ascending move order, and the running best is replaced on strict
  improvement only. \<open>pickMax\<close> and \<open>pickMin\<close> are that fold over the evaluated children.
  A child is the board with the mover's mark written at the move, which is what
  \<open>applyMove\<close> returns for a move that \<open>availableMoves\<close> lists.
\<close>

fun pickMax :: "(int \<times> num) list \<Rightarrow> num \<Rightarrow> int option \<Rightarrow> MoveResult" where
  "pickMax [] v bestMove = \<lparr>value = v, move = bestMove\<rparr>"
| "pickMax ((mv, x) # rest) v bestMove =
     (if x > v then pickMax rest x (Some mv) else pickMax rest v bestMove)"

fun pickMin :: "(int \<times> num) list \<Rightarrow> num \<Rightarrow> int option \<Rightarrow> MoveResult" where
  "pickMin [] v bestMove = \<lparr>value = v, move = bestMove\<rparr>"
| "pickMin ((mv, x) # rest) v bestMove =
     (if x < v then pickMin rest x (Some mv) else pickMin rest v bestMove)"

lemma available_emptyCount:
  "mv \<in> set (availableMoves board) \<Longrightarrow>
   emptyCount (board[nat mv := Some player]) < emptyCount board"
  using applyMove_available applyMove_emptyCount by blast

function bruteForceMax :: "Board \<Rightarrow> MoveResult"
  and bruteForceMin :: "Board \<Rightarrow> MoveResult"
where
  "bruteForceMax board =
     (if terminal board then \<lparr>value = utility board, move = None\<rparr>
      else pickMax
             (map (\<lambda>mv. (mv, value (bruteForceMin (board[nat mv := Some PlayerX]))))
                  (availableMoves board))
             NegInfinity None)"
| "bruteForceMin board =
     (if terminal board then \<lparr>value = utility board, move = None\<rparr>
      else pickMin
             (map (\<lambda>mv. (mv, value (bruteForceMax (board[nat mv := Some PlayerO]))))
                  (availableMoves board))
             Infinity None)"
  by pat_completeness auto

termination
  by (relation "measure (\<lambda>s. case s of Inl b \<Rightarrow> emptyCount b | Inr b \<Rightarrow> emptyCount b)")
     (auto simp: available_emptyCount)

declare bruteForceMax.simps [simp del] bruteForceMin.simps [simp del]

text \<open>
  The minimax value of a position for the side to move, the value of a move (that of
  the position it leads to, where the other side moves), and the moves that attain
  the position's value.
\<close>

definition positionValue :: "Board \<Rightarrow> Player \<Rightarrow> num" where
  "positionValue board player =
     (if player = PlayerX then value (bruteForceMax board) else value (bruteForceMin board))"

definition moveValue :: "Board \<Rightarrow> Player \<Rightarrow> int \<Rightarrow> num" where
  "moveValue board player mv =
     (if player = PlayerX then value (bruteForceMin (board[nat mv := Some PlayerX]))
      else value (bruteForceMax (board[nat mv := Some PlayerO])))"

definition optimalMoves :: "Board \<Rightarrow> Player \<Rightarrow> int list" where
  "optimalMoves board player =
     filter (\<lambda>mv. moveValue board player mv = positionValue board player) (availableMoves board)"

text \<open>The three values \<open>utility\<close> can take.\<close>

definition utilities :: "num set" where
  "utilities = {Num (- 1), Num 0, Num 1}"

text \<open>
  What a fail-soft window search may return: \<open>r\<close> is the returned value, \<open>t\<close> the true
  one. Inside the window the two agree; outside, \<open>r\<close> bounds \<open>t\<close> on the right side.
\<close>

definition failSoft :: "num \<Rightarrow> num \<Rightarrow> num \<Rightarrow> num \<Rightarrow> bool" where
  "failSoft alpha beta r t =
     ((r \<le> alpha \<longrightarrow> t \<le> r) \<and> (alpha < r \<and> r < beta \<longrightarrow> r = t) \<and> (beta \<le> r \<longrightarrow> r \<le> t))"

lemma failSoft_max_step:
  assumes "failSoft alpha beta c t" "failSoft (max alpha c) beta r (max c z)"
  shows "failSoft alpha beta r (max t z)"
  unfolding failSoft_def
proof (intro conjI impI)
  assume "r \<le> alpha"
  with assms show "max t z \<le> r"
    unfolding failSoft_def by (metis max.bounded_iff max.coboundedI1 order.trans)
next
  assume "alpha < r \<and> r < beta"
  with assms show "r = max t z"
    unfolding failSoft_def
    by (metis leI max.absorb1 max.absorb2 max.bounded_iff max.cobounded1 max_less_iff_conj
        order_less_le)
next
  assume "beta \<le> r"
  with assms show "r \<le> max t z"
    unfolding failSoft_def by (metis le_max_iff_disj order.trans)
qed

lemma failSoft_min_step:
  assumes "failSoft alpha beta c t" "failSoft alpha (min beta c) r (min c z)"
  shows "failSoft alpha beta r (min t z)"
  unfolding failSoft_def
proof (intro conjI impI)
  assume "r \<le> alpha"
  with assms show "min t z \<le> r"
    unfolding failSoft_def by (metis min.absorb1 min_le_iff_disj)
next
  assume "alpha < r \<and> r < beta"
  with assms show "r = min t z"
    unfolding failSoft_def
    by (metis min.absorb_iff1 min.commute min_less_iff_conj min_less_iff_disj
        order_refl verit_comp_simplify1(3))
next
  assume "beta \<le> r"
  with assms show "r \<le> min t z"
    unfolding failSoft_def by (metis dual_order.trans min.bounded_iff min_le_iff_disj)
qed

lemma failSoft_max_cut:
  assumes "failSoft alpha beta c t" "alpha < beta" "beta \<le> c"
  shows "failSoft alpha beta c (max t z)"
  using assms unfolding failSoft_def
  by (metis linorder_not_less max.bounded_iff max.absorb1 max.absorb4)

lemma failSoft_min_cut:
  assumes "failSoft alpha beta c t" "alpha < beta" "c \<le> alpha"
  shows "failSoft alpha beta c (min t z)"
  using assms unfolding failSoft_def
  by (metis min_less_iff_conj min.absorb1 linorder_not_less)

lemma failSoft_refl: "failSoft alpha beta r r"
  by (simp add: failSoft_def)

lemma foldl_max_max: "foldl max (max v x) xs = max x (foldl max v xs)" for v :: num
  by (induction xs arbitrary: v x) (simp_all add: max.assoc max.commute max.left_commute)

lemma foldl_min_min: "foldl min (min v x) xs = min x (foldl min v xs)" for v :: num
  by (induction xs arbitrary: v x) (simp_all add: min.assoc min.commute min.left_commute)

lemma pickMax_value: "value (pickMax cs v bm) = foldl max v (map snd cs)"
proof (induction cs v bm rule: pickMax.induct)
  case (1 v bestMove)
  show ?case by simp
next
  case (2 mv x rest v bestMove)
  show ?case
  proof (cases "v < x")
    case True
    with 2 show ?thesis by (simp add: max_absorb2)
  next
    case False
    then have "x \<le> v" by simp
    with False 2 show ?thesis by (simp add: max_absorb1)
  qed
qed

lemma pickMin_value: "value (pickMin cs v bm) = foldl min v (map snd cs)"
proof (induction cs v bm rule: pickMin.induct)
  case (1 v bestMove)
  show ?case by simp
next
  case (2 mv x rest v bestMove)
  show ?case
  proof (cases "x < v")
    case True
    with 2 show ?thesis by (simp add: min_absorb2)
  next
    case False
    then have "v \<le> x" by simp
    with False 2 show ?thesis by (simp add: min_absorb1)
  qed
qed

section \<open>The pruned search against unpruned minimax\<close>

declare maxValueAB.simps [simp del] minValueAB.simps [simp del]
  maxValueAB_loop.simps [simp del] minValueAB_loop.simps [simp del]

lemma if_less_max: "(if v < c then c else v) = max v c" for v :: num
  by (auto simp: max_def)

lemma if_less_min: "(if c < v then c else v) = min v c" for v :: num
  by (auto simp: min_def)

lemma maxValueAB_loop_step:
  assumes mv: "mv \<in> set (availableMoves board)"
    and child: "minValueAB (board[nat mv := Some PlayerX]) alpha beta = Inr cr"
      "failSoft alpha beta (value cr) t"
    and inv: "v \<le> alpha" "alpha < beta"
    and rest: "\<not> beta \<le> max alpha (value cr) \<Longrightarrow>
       \<exists>r. maxValueAB_loop board rest (max alpha (value cr)) beta (max v (value cr))
              (if v < value cr then Some mv else bm) = Inr r
           \<and> failSoft (max alpha (value cr)) beta (value r) (foldl max (max v (value cr)) xs)"
  shows "\<exists>r. maxValueAB_loop board (mv # rest) alpha beta v bm = Inr r
           \<and> failSoft alpha beta (value r) (foldl max (max v t) xs)"
proof -
  let ?c = "value cr"
  have a': "max alpha (max v ?c) = max alpha ?c"
    using inv(1) by (metis max.absorb1 max.assoc)
  have unfold: "maxValueAB_loop board (mv # rest) alpha beta v bm =
      (if beta \<le> max alpha ?c
       then Inr \<lparr>value = max v ?c, move = (if v < ?c then Some mv else bm)\<rparr>
       else maxValueAB_loop board rest (max alpha ?c) beta (max v ?c)
              (if v < ?c then Some mv else bm))"
    by (simp add: maxValueAB_loop.simps(2) applyMove_available[OF mv] child(1) Let_def
        if_less_max a')
  have goal: "foldl max (max v t) xs = max t (foldl max v xs)"
    by (rule foldl_max_max)
  show ?thesis
  proof (cases "beta \<le> max alpha ?c")
    case True
    with inv have bc: "beta \<le> ?c"
      by (metis le_max_iff_disj not_le)
    with inv have "max v ?c = ?c"
      by (metis max.absorb2 order.trans less_imp_le)
    moreover have "failSoft alpha beta ?c (max t (foldl max v xs))"
      using child(2) inv(2) bc by (rule failSoft_max_cut)
    ultimately show ?thesis
      using True by (simp add: unfold goal)
  next
    case False
    from rest[OF False] obtain r where
      r: "maxValueAB_loop board rest (max alpha ?c) beta (max v ?c)
            (if v < ?c then Some mv else bm) = Inr r"
      and fs: "failSoft (max alpha ?c) beta (value r) (foldl max (max v ?c) xs)"
      by blast
    from fs have "failSoft (max alpha ?c) beta (value r) (max ?c (foldl max v xs))"
      by (simp add: foldl_max_max)
    with child(2) have "failSoft alpha beta (value r) (max t (foldl max v xs))"
      by (rule failSoft_max_step)
    with r False show ?thesis
      by (simp add: unfold goal)
  qed
qed

lemma minValueAB_loop_step:
  assumes mv: "mv \<in> set (availableMoves board)"
    and child: "maxValueAB (board[nat mv := Some PlayerO]) alpha beta = Inr cr"
      "failSoft alpha beta (value cr) t"
    and inv: "beta \<le> v" "alpha < beta"
    and rest: "\<not> min beta (value cr) \<le> alpha \<Longrightarrow>
       \<exists>r. minValueAB_loop board rest alpha (min beta (value cr)) (min v (value cr))
              (if value cr < v then Some mv else bm) = Inr r
           \<and> failSoft alpha (min beta (value cr)) (value r) (foldl min (min v (value cr)) xs)"
  shows "\<exists>r. minValueAB_loop board (mv # rest) alpha beta v bm = Inr r
           \<and> failSoft alpha beta (value r) (foldl min (min v t) xs)"
proof -
  let ?c = "value cr"
  have b': "min beta (min v ?c) = min beta ?c"
    using inv(1) by (metis min.absorb1 min.assoc)
  have unfold: "minValueAB_loop board (mv # rest) alpha beta v bm =
      (if min beta ?c \<le> alpha
       then Inr \<lparr>value = min v ?c, move = (if ?c < v then Some mv else bm)\<rparr>
       else minValueAB_loop board rest alpha (min beta ?c) (min v ?c)
              (if ?c < v then Some mv else bm))"
    by (simp add: minValueAB_loop.simps(2) applyMove_available[OF mv] child(1) Let_def
        if_less_min b')
  have goal: "foldl min (min v t) xs = min t (foldl min v xs)"
    by (rule foldl_min_min)
  show ?thesis
  proof (cases "min beta ?c \<le> alpha")
    case True
    with inv have ca: "?c \<le> alpha"
      by (metis min_le_iff_disj not_le)
    with inv have "min v ?c = ?c"
      by (metis min.absorb2 order.trans less_imp_le)
    moreover have "failSoft alpha beta ?c (min t (foldl min v xs))"
      using child(2) inv(2) ca by (rule failSoft_min_cut)
    ultimately show ?thesis
      using True by (simp add: unfold goal)
  next
    case False
    from rest[OF False] obtain r where
      r: "minValueAB_loop board rest alpha (min beta ?c) (min v ?c)
            (if ?c < v then Some mv else bm) = Inr r"
      and fs: "failSoft alpha (min beta ?c) (value r) (foldl min (min v ?c) xs)"
      by blast
    from fs have "failSoft alpha (min beta ?c) (value r) (min ?c (foldl min v xs))"
      by (simp add: foldl_min_min)
    with child(2) have "failSoft alpha beta (value r) (min t (foldl min v xs))"
      by (rule failSoft_min_step)
    with r False show ?thesis
      by (simp add: unfold goal)
  qed
qed

text \<open>
  The fail-soft property of both evaluators and of both loops, by the computation
  induction of the search. A loop is entered with \<open>v\<close> inside the bound it tightens.
\<close>

lemma alphabeta_failSoft:
  shows "alpha < beta \<Longrightarrow>
           \<exists>r. maxValueAB board alpha beta = Inr r
             \<and> failSoft alpha beta (value r) (value (bruteForceMax board))"
    and "set ms \<subseteq> set (availableMoves board) \<Longrightarrow> v \<le> alpha \<Longrightarrow> alpha < beta \<Longrightarrow>
           \<exists>r. maxValueAB_loop board ms alpha beta v bm = Inr r
             \<and> failSoft alpha beta (value r)
                   (foldl max v
                      (map (\<lambda>mv. value (bruteForceMin (board[nat mv := Some PlayerX]))) ms))"
    and "alpha < beta \<Longrightarrow>
           \<exists>r. minValueAB board alpha beta = Inr r
             \<and> failSoft alpha beta (value r) (value (bruteForceMin board))"
    and "set ms \<subseteq> set (availableMoves board) \<Longrightarrow> beta \<le> v \<Longrightarrow> alpha < beta \<Longrightarrow>
           \<exists>r. minValueAB_loop board ms alpha beta v bm = Inr r
             \<and> failSoft alpha beta (value r)
                   (foldl min v
                      (map (\<lambda>mv. value (bruteForceMax (board[nat mv := Some PlayerO]))) ms))"
proof (induction board alpha beta and board ms alpha beta v bm
         and board alpha beta and board ms alpha beta v bm
       rule: maxValueAB_maxValueAB_loop_minValueAB_minValueAB_loop.induct)
  case (1 board alpha beta)
  show ?case
  proof (cases "terminal board")
    case True
    then show ?thesis
      by (simp add: maxValueAB.simps bruteForceMax.simps failSoft_refl)
  next
    case False
    from "1.IH"[OF False _ _ "1.prems"]
    obtain r where "maxValueAB_loop board (availableMoves board) alpha beta NegInfinity None = Inr r"
      and "failSoft alpha beta (value r)
             (foldl max NegInfinity
                (map (\<lambda>mv. value (bruteForceMin (board[nat mv := Some PlayerX])))
                   (availableMoves board)))"
      by auto
    with False show ?thesis
      by (simp add: maxValueAB.simps bruteForceMax.simps pickMax_value comp_def)
  qed
next
  case (2 board alpha beta v bestMove)
  show ?case
    by (simp add: maxValueAB_loop.simps failSoft_refl)
next
  case (3 board mv rest alpha beta v bestMove)
  from "3.prems" have mv: "mv \<in> set (availableMoves board)"
    and sub: "set rest \<subseteq> set (availableMoves board)" by auto
  note am = applyMove_available[OF mv, of PlayerX]
  from "3.IH"(1)[OF am "3.prems"(3)] obtain cr where
    cr: "minValueAB (board[nat mv := Some PlayerX]) alpha beta = Inr cr"
    and fs: "failSoft alpha beta (value cr)
               (value (bruteForceMin (board[nat mv := Some PlayerX])))"
    by blast
  have rest: "\<exists>r. maxValueAB_loop board rest (max alpha (value cr)) beta (max v (value cr))
              (if v < value cr then Some mv else bestMove) = Inr r
           \<and> failSoft (max alpha (value cr)) beta (value r)
               (foldl max (max v (value cr))
                 (map (\<lambda>mv. value (bruteForceMin (board[nat mv := Some PlayerX]))) rest))"
    if nb: "\<not> beta \<le> max alpha (value cr)"
  proof -
    have a': "max alpha (max v (value cr)) = max alpha (value cr)"
      using "3.prems"(2) by (metis max.absorb1 max.assoc)
    have nb': "\<not> beta \<le> max alpha (if v < value cr then value cr else v)"
      using nb by (simp add: if_less_max a')
    have v': "max v (value cr) \<le> max alpha (value cr)"
      using "3.prems"(2) by (intro max.mono order_refl)
    have lt: "max alpha (value cr) < beta"
      using nb by (simp only: not_le)
    note ih = "3.IH"(2)[OF am cr refl refl refl refl nb' sub, unfolded if_less_max a']
    show ?thesis by (rule ih[OF v' lt])
  qed
  from maxValueAB_loop_step[OF mv cr fs "3.prems"(2,3) rest]
  show ?case by simp
next
  case (4 board alpha beta)
  show ?case
  proof (cases "terminal board")
    case True
    then show ?thesis
      by (simp add: minValueAB.simps bruteForceMin.simps failSoft_refl)
  next
    case False
    from "4.IH"[OF False _ _ "4.prems"]
    obtain r where "minValueAB_loop board (availableMoves board) alpha beta Infinity None = Inr r"
      and "failSoft alpha beta (value r)
             (foldl min Infinity
                (map (\<lambda>mv. value (bruteForceMax (board[nat mv := Some PlayerO])))
                   (availableMoves board)))"
      by auto
    with False show ?thesis
      by (simp add: minValueAB.simps bruteForceMin.simps pickMin_value comp_def)
  qed
next
  case (5 board alpha beta v bestMove)
  show ?case
    by (simp add: minValueAB_loop.simps failSoft_refl)
next
  case (6 board mv rest alpha beta v bestMove)
  from "6.prems" have mv: "mv \<in> set (availableMoves board)"
    and sub: "set rest \<subseteq> set (availableMoves board)" by auto
  note am = applyMove_available[OF mv, of PlayerO]
  from "6.IH"(1)[OF am "6.prems"(3)] obtain cr where
    cr: "maxValueAB (board[nat mv := Some PlayerO]) alpha beta = Inr cr"
    and fs: "failSoft alpha beta (value cr)
               (value (bruteForceMax (board[nat mv := Some PlayerO])))"
    by blast
  have rest: "\<exists>r. minValueAB_loop board rest alpha (min beta (value cr)) (min v (value cr))
              (if value cr < v then Some mv else bestMove) = Inr r
           \<and> failSoft alpha (min beta (value cr)) (value r)
               (foldl min (min v (value cr))
                 (map (\<lambda>mv. value (bruteForceMax (board[nat mv := Some PlayerO]))) rest))"
    if nb: "\<not> min beta (value cr) \<le> alpha"
  proof -
    have b': "min beta (min v (value cr)) = min beta (value cr)"
      using "6.prems"(2) by (metis min.absorb1 min.assoc)
    have nb': "\<not> min beta (if value cr < v then value cr else v) \<le> alpha"
      using nb by (simp add: if_less_min b')
    have v': "min beta (value cr) \<le> min v (value cr)"
      using "6.prems"(2) by (intro min.mono order_refl)
    have lt: "alpha < min beta (value cr)"
      using nb by (simp only: not_le)
    note ih = "6.IH"(2)[OF am cr refl refl refl refl nb' sub, unfolded if_less_min b']
    show ?thesis by (rule ih[OF v' lt])
  qed
  from minValueAB_loop_step[OF mv cr fs "6.prems"(2,3) rest]
  show ?case by simp
qed

text \<open>Every value of the game is one of the three utilities.\<close>

lemma utility_in: "utility board \<in> utilities"
  by (simp add: utility_def utilities_def Let_def)

lemma foldl_max_in: "foldl max v xs \<in> insert v (set xs)" for v :: num
proof (induction xs arbitrary: v)
  case Nil
  show ?case by simp
next
  case (Cons x xs)
  have "max v x = v \<or> max v x = x" by (auto simp: max_def)
  with Cons[of "max v x"] show ?case by auto
qed

lemma foldl_min_in: "foldl min v xs \<in> insert v (set xs)" for v :: num
proof (induction xs arbitrary: v)
  case Nil
  show ?case by simp
next
  case (Cons x xs)
  have "min v x = v \<or> min v x = x" by (auto simp: min_def)
  with Cons[of "min v x"] show ?case by auto
qed

lemma foldl_max_bottom: "xs \<noteq> [] \<Longrightarrow> foldl max NegInfinity xs \<in> set xs"
proof (cases xs)
  case Nil
  then show "xs \<noteq> [] \<Longrightarrow> ?thesis" by simp
next
  case (Cons x ys)
  have "max NegInfinity x = x" by (simp add: max_absorb2)
  with Cons foldl_max_in[of x ys] show ?thesis by simp
qed

lemma foldl_min_top: "xs \<noteq> [] \<Longrightarrow> foldl min Infinity xs \<in> set xs"
proof (cases xs)
  case Nil
  then show "xs \<noteq> [] \<Longrightarrow> ?thesis" by simp
next
  case (Cons x ys)
  have "min Infinity x = x" by (simp add: min_absorb2)
  with Cons foldl_min_in[of x ys] show ?thesis by simp
qed

lemma bruteForce_utilities:
  shows "value (bruteForceMax board) \<in> utilities"
    and "value (bruteForceMin board) \<in> utilities"
proof (induction board and board rule: bruteForceMax_bruteForceMin.induct)
  case (1 board)
  show ?case
  proof (cases "terminal board")
    case True
    then show ?thesis by (simp add: bruteForceMax.simps utility_in)
  next
    case False
    let ?xs = "map (\<lambda>mv. value (bruteForceMin (board[nat mv := Some PlayerX])))
                 (availableMoves board)"
    from False have "?xs \<noteq> []" by (simp add: not_terminal_moves)
    then have "foldl max NegInfinity ?xs \<in> set ?xs" by (rule foldl_max_bottom)
    moreover have "set ?xs \<subseteq> utilities" using "1.IH"[OF False] by auto
    ultimately show ?thesis
      using False by (auto simp: bruteForceMax.simps pickMax_value comp_def)
  qed
next
  case (2 board)
  show ?case
  proof (cases "terminal board")
    case True
    then show ?thesis by (simp add: bruteForceMin.simps utility_in)
  next
    case False
    let ?xs = "map (\<lambda>mv. value (bruteForceMax (board[nat mv := Some PlayerO])))
                 (availableMoves board)"
    from False have "?xs \<noteq> []" by (simp add: not_terminal_moves)
    then have "foldl min Infinity ?xs \<in> set ?xs" by (rule foldl_min_top)
    moreover have "set ?xs \<subseteq> utilities" using "2.IH"[OF False] by auto
    ultimately show ?thesis
      using False by (auto simp: bruteForceMin.simps pickMin_value comp_def)
  qed
qed

text \<open>
  At the root the window is \<open>(-\<infinity>, +\<infinity>)\<close> and the loop keeps \<open>alpha = v\<close>: a child
  is taken exactly when its true value improves on \<open>v\<close>, and the loop never breaks.
\<close>

lemma root_child_max:
  assumes fs: "failSoft v Infinity c t" and t: "t \<in> utilities"
  shows "(v < c) = (v < t)" and "v < c \<Longrightarrow> c = t"
proof -
  have c: "c = t" if "v < c"
  proof (cases "c = Infinity")
    case True
    with fs have "t = Infinity" by (simp add: failSoft_def)
    with t show ?thesis by (simp add: utilities_def)
  next
    case False
    then have "c < Infinity" by (cases c) simp_all
    with fs that show ?thesis by (simp add: failSoft_def)
  qed
  then show "v < c \<Longrightarrow> c = t" .
  show "(v < c) = (v < t)"
  proof (cases "v < c")
    case True
    with c show ?thesis by simp
  next
    case False
    then have "c \<le> v" by simp
    with fs have "t \<le> c" by (simp add: failSoft_def)
    with \<open>c \<le> v\<close> have "t \<le> v" by simp
    with False show ?thesis by simp
  qed
qed

lemma root_child_min:
  assumes fs: "failSoft NegInfinity v c t" and t: "t \<in> utilities"
  shows "(c < v) = (t < v)" and "c < v \<Longrightarrow> c = t"
proof -
  have c: "c = t" if "c < v"
  proof (cases "c = NegInfinity")
    case True
    with fs have "t = NegInfinity" by (simp add: failSoft_def)
    with t show ?thesis by (simp add: utilities_def)
  next
    case False
    then have "NegInfinity < c" by (cases c) simp_all
    with fs that show ?thesis by (simp add: failSoft_def)
  qed
  then show "c < v \<Longrightarrow> c = t" .
  show "(c < v) = (t < v)"
  proof (cases "c < v")
    case True
    with c show ?thesis by simp
  next
    case False
    then have "v \<le> c" by simp
    with fs have "c \<le> t" by (simp add: failSoft_def)
    with \<open>v \<le> c\<close> have "v \<le> t" by (rule order.trans)
    with False show ?thesis by simp
  qed
qed

lemma maxValueAB_loop_root:
  assumes "set ms \<subseteq> set (availableMoves board)" "v \<noteq> Infinity"
  shows "maxValueAB_loop board ms v Infinity v bm =
           Inr (pickMax (map (\<lambda>mv. (mv, value (bruteForceMin (board[nat mv := Some PlayerX])))) ms)
                  v bm)"
  using assms
proof (induction ms arbitrary: v bm)
  case Nil
  show ?case by (simp add: maxValueAB_loop.simps)
next
  case (Cons mv rest)
  let ?t = "value (bruteForceMin (board[nat mv := Some PlayerX]))"
  from Cons.prems have mv: "mv \<in> set (availableMoves board)"
    and sub: "set rest \<subseteq> set (availableMoves board)" by auto
  have vlt: "v < Infinity" using Cons.prems(2) by (cases v) simp_all
  from alphabeta_failSoft(3)[OF vlt] obtain cr where
    cr: "minValueAB (board[nat mv := Some PlayerX]) v Infinity = Inr cr"
    and fs: "failSoft v Infinity (value cr) ?t" by blast
  have t: "?t \<in> utilities" by (rule bruteForce_utilities)
  then have tfin: "?t \<noteq> Infinity" by (auto simp: utilities_def)
  note cmp = root_child_max[OF fs t]
  show ?case
  proof (cases "v < ?t")
    case True
    with cmp have c: "value cr = ?t" by simp
    from True have "max v ?t = ?t" by (simp add: max_absorb2)
    with True c tfin Cons.IH[OF sub tfin, of "Some mv"] show ?thesis
      by (simp add: maxValueAB_loop.simps(2) applyMove_available[OF mv] cr Let_def)
  next
    case False
    with cmp have nc: "\<not> v < value cr" by simp
    with False Cons.prems(2) Cons.IH[OF sub Cons.prems(2), of bm] show ?thesis
      by (simp add: maxValueAB_loop.simps(2) applyMove_available[OF mv] cr Let_def)
  qed
qed

lemma minValueAB_loop_root:
  assumes "set ms \<subseteq> set (availableMoves board)" "v \<noteq> NegInfinity"
  shows "minValueAB_loop board ms NegInfinity v v bm =
           Inr (pickMin (map (\<lambda>mv. (mv, value (bruteForceMax (board[nat mv := Some PlayerO])))) ms)
                  v bm)"
  using assms
proof (induction ms arbitrary: v bm)
  case Nil
  show ?case by (simp add: minValueAB_loop.simps)
next
  case (Cons mv rest)
  let ?t = "value (bruteForceMax (board[nat mv := Some PlayerO]))"
  from Cons.prems have mv: "mv \<in> set (availableMoves board)"
    and sub: "set rest \<subseteq> set (availableMoves board)" by auto
  have vlt: "NegInfinity < v" using Cons.prems(2) by (cases v) simp_all
  from alphabeta_failSoft(1)[OF vlt] obtain cr where
    cr: "maxValueAB (board[nat mv := Some PlayerO]) NegInfinity v = Inr cr"
    and fs: "failSoft NegInfinity v (value cr) ?t" by blast
  have t: "?t \<in> utilities" by (rule bruteForce_utilities)
  then have tfin: "?t \<noteq> NegInfinity" by (auto simp: utilities_def)
  note cmp = root_child_min[OF fs t]
  show ?case
  proof (cases "?t < v")
    case True
    with cmp have c: "value cr = ?t" by simp
    from True have "min v ?t = ?t" by (simp add: min_absorb2)
    with True c tfin Cons.IH[OF sub tfin, of "Some mv"] show ?thesis
      by (simp add: minValueAB_loop.simps(2) applyMove_available[OF mv] cr Let_def)
  next
    case False
    with cmp have nc: "\<not> value cr < v" by simp
    with False Cons.prems(2) Cons.IH[OF sub Cons.prems(2), of bm] show ?thesis
      by (simp add: minValueAB_loop.simps(2) applyMove_available[OF mv] cr Let_def)
  qed
qed

lemma maxValueAB_root: "maxValueAB board NegInfinity Infinity = Inr (bruteForceMax board)"
  by (simp add: maxValueAB.simps bruteForceMax.simps maxValueAB_loop_root)

lemma minValueAB_root: "minValueAB board NegInfinity Infinity = Inr (bruteForceMin board)"
  by (simp add: minValueAB.simps bruteForceMin.simps minValueAB_loop_root)

text \<open>
  Which move the strict-improvement fold keeps: none of its own when no child improves
  on the start value, else the first child that attains the maximum.
\<close>

lemma foldl_max_ge_start: "v \<le> foldl max v xs" for v :: num
  by (induction xs arbitrary: v) (auto intro: order.trans[OF max.cobounded1])

lemma foldl_min_le_start: "foldl min v xs \<le> v" for v :: num
  by (induction xs arbitrary: v) (auto intro: order.trans[OF _ min.cobounded1])

lemma foldl_max_ge_elem: "x \<in> set xs \<Longrightarrow> x \<le> foldl max v xs" for v :: num
proof (induction xs arbitrary: v)
  case Nil
  then show ?case by simp
next
  case (Cons y ys)
  show ?case
  proof (cases "x = y")
    case True
    have "y \<le> max v y" by simp
    also have "\<dots> \<le> foldl max (max v y) ys" by (rule foldl_max_ge_start)
    finally show ?thesis using True by simp
  next
    case False
    with Cons show ?thesis by simp
  qed
qed

lemma foldl_min_le_elem: "x \<in> set xs \<Longrightarrow> foldl min v xs \<le> x" for v :: num
proof (induction xs arbitrary: v)
  case Nil
  then show ?case by simp
next
  case (Cons y ys)
  show ?case
  proof (cases "x = y")
    case True
    have "foldl min (min v y) ys \<le> min v y" by (rule foldl_min_le_start)
    also have "\<dots> \<le> y" by simp
    finally show ?thesis using True by simp
  next
    case False
    with Cons show ?thesis by simp
  qed
qed

lemma pickMax_move:
  "move (pickMax (map (\<lambda>mv. (mv, f mv)) ms) v bm) =
     (if foldl max v (map f ms) = v then bm
      else Some (hd (filter (\<lambda>mv. f mv = foldl max v (map f ms)) ms)))"
proof (induction ms arbitrary: v bm)
  case Nil
  show ?case by simp
next
  case (Cons m rest)
  let ?V = "foldl max v (map f (m # rest))"
  show ?case
  proof (cases "v < f m")
    case True
    then have mx: "max v (f m) = f m" by (simp add: max_absorb2)
    have "f m \<le> ?V" using foldl_max_ge_start[of "f m" "map f rest"] mx by simp
    with True have "?V \<noteq> v" by auto
    with True mx Cons.IH[of "f m" "Some m"] show ?thesis by simp
  next
    case False
    then have le: "f m \<le> v" by simp
    then have mx: "max v (f m) = v" by (simp add: max_absorb1)
    have "?V \<noteq> v \<Longrightarrow> f m \<noteq> ?V"
    proof -
      assume ne: "?V \<noteq> v"
      have "v \<le> ?V" by (rule foldl_max_ge_start)
      with ne have "v < ?V" by simp
      with le show "f m \<noteq> ?V" by auto
    qed
    with False mx Cons.IH[of v bm] show ?thesis by auto
  qed
qed

lemma pickMin_move:
  "move (pickMin (map (\<lambda>mv. (mv, f mv)) ms) v bm) =
     (if foldl min v (map f ms) = v then bm
      else Some (hd (filter (\<lambda>mv. f mv = foldl min v (map f ms)) ms)))"
proof (induction ms arbitrary: v bm)
  case Nil
  show ?case by simp
next
  case (Cons m rest)
  let ?V = "foldl min v (map f (m # rest))"
  show ?case
  proof (cases "f m < v")
    case True
    then have mn: "min v (f m) = f m" by (simp add: min_absorb2)
    have "?V \<le> f m" using foldl_min_le_start[of "f m" "map f rest"] mn by simp
    with True have "?V \<noteq> v" by auto
    with True mn Cons.IH[of "f m" "Some m"] show ?thesis by simp
  next
    case False
    then have le: "v \<le> f m" by simp
    then have mn: "min v (f m) = v" by (simp add: min_absorb1)
    have "?V \<noteq> v \<Longrightarrow> f m \<noteq> ?V"
    proof -
      assume ne: "?V \<noteq> v"
      have "?V \<le> v" by (rule foldl_min_le_start)
      with ne have "?V < v" by simp
      with le show "f m \<noteq> ?V" by auto
    qed
    with False mn Cons.IH[of v bm] show ?thesis by auto
  qed
qed

section \<open>The winner scan\<close>

lemma lineWon_lineMark:
  assumes "length line = 3"
  shows "lineWon board line \<longleftrightarrow> lineMark board line \<noteq> None"
    and "lineWon board line \<Longrightarrow> board ! nat (line ! 0) = lineMark board line"
proof -
  from assms obtain a b c where line: "line = [a, b, c]"
    by (cases line; cases "tl line"; cases "tl (tl line)") auto
  show "lineWon board line \<longleftrightarrow> lineMark board line \<noteq> None"
  proof (cases "at board a")
    case None
    then show ?thesis by (simp add: line lineWon_def lineMark_def)
  next
    case (Some sq)
    show ?thesis
    proof (cases sq)
      case None
      with Some show ?thesis by (simp add: line lineWon_def lineMark_def)
    next
      case (Some p)
      with \<open>at board a = Some sq\<close> show ?thesis
        by (cases p) (auto simp: line lineWon_def lineMark_def)
    qed
  qed
  show "board ! nat (line ! 0) = lineMark board line" if "lineWon board line"
  proof -
    from that obtain p where p: "at board a = Some (Some p)"
      "at board b = Some (Some p)" "at board c = Some (Some p)"
      by (auto simp: line lineWon_def split: option.splits)
    from p(1) have "board ! nat a = Some p"
      by (auto simp: at_def split: if_splits)
    with p show ?thesis
      by (cases p) (simp_all add: line lineMark_def)
  qed
qed

lemma calculateWinner_loop_first:
  "\<forall>line \<in> set lines. length line = 3 \<Longrightarrow>
   calculateWinner_loop board lines = firstLineMark board lines"
proof (induction lines)
  case Nil
  show ?case by (simp add: firstLineMark_def)
next
  case (Cons line lines)
  then have len: "length line = 3" and rest: "\<forall>l \<in> set lines. length l = 3" by simp_all
  show ?case
  proof (cases "lineWon board line")
    case True
    with lineWon_lineMark[OF len, of board] show ?thesis
      by (simp add: firstLineMark_def)
  next
    case False
    with lineWon_lineMark(1)[OF len, of board] Cons.IH[OF rest] show ?thesis
      by (simp add: firstLineMark_def)
  qed
qed

lemma firstLineMark_Some_iff:
  "firstLineMark board lines = Some p \<longleftrightarrow>
     (\<exists>k < length lines. lineMark board (lines ! k) = Some p
        \<and> (\<forall>j < k. lineMark board (lines ! j) = None))"
proof
  assume "firstLineMark board lines = Some p"
  then obtain line where f: "find (\<lambda>l. lineMark board l \<noteq> None) lines = Some line"
    and m: "lineMark board line = Some p"
    by (auto simp: firstLineMark_def split: option.splits)
  from f obtain k where "k < length lines" "line = lines ! k"
    "\<forall>j < k. \<not> lineMark board (lines ! j) \<noteq> None"
    unfolding find_Some_iff by blast
  with m show "\<exists>k < length lines. lineMark board (lines ! k) = Some p
        \<and> (\<forall>j < k. lineMark board (lines ! j) = None)"
    by auto
next
  assume "\<exists>k < length lines. lineMark board (lines ! k) = Some p
        \<and> (\<forall>j < k. lineMark board (lines ! j) = None)"
  then obtain k where k: "k < length lines" "lineMark board (lines ! k) = Some p"
    "\<forall>j < k. lineMark board (lines ! j) = None" by blast
  then have "find (\<lambda>l. lineMark board l \<noteq> None) lines = Some (lines ! k)"
    unfolding find_Some_iff by auto
  with k(2) show "firstLineMark board lines = Some p"
    by (simp add: firstLineMark_def)
qed

lemma firstLineMark_None_iff:
  "firstLineMark board lines = None \<longleftrightarrow>
     (\<forall>k < length lines. lineMark board (lines ! k) = None)"
proof
  assume n: "firstLineMark board lines = None"
  show "\<forall>k < length lines. lineMark board (lines ! k) = None"
  proof (intro allI impI)
    fix k assume k: "k < length lines"
    show "lineMark board (lines ! k) = None"
    proof (cases "find (\<lambda>l. lineMark board l \<noteq> None) lines")
      case None
      with k show ?thesis unfolding find_None_iff by auto
    next
      case (Some line)
      with n have "lineMark board line = None" by (simp add: firstLineMark_def)
      moreover from Some have "lineMark board line \<noteq> None"
        unfolding find_Some_iff by blast
      ultimately show ?thesis by simp
    qed
  qed
next
  assume "\<forall>k < length lines. lineMark board (lines ! k) = None"
  then have "find (\<lambda>l. lineMark board l \<noteq> None) lines = None"
    unfolding find_None_iff by (auto simp: in_set_conv_nth)
  then show "firstLineMark board lines = None" by (simp add: firstLineMark_def)
qed

lemma winningLines_length: "\<forall>line \<in> set winningLines. length line = 3"
  by (simp add: winningLines_def)

lemma calculateWinner_first: "calculateWinner board = firstLineMark board winningLines"
  unfolding calculateWinner_def
  by (rule calculateWinner_loop_first[OF winningLines_length])

section \<open>Claims about the board model\<close>

text \<open>
  C5. On a nine-cell board and a move index in \<open>[0,8]\<close>, \<open>applyMove\<close> raises the
  invalid-move error exactly when the target cell is occupied; on an empty cell it
  returns a board whose cell at the index holds the player's mark.
\<close>

theorem C5_applyMove_error_iff_occupied:
  assumes "length board = 9" "0 \<le> mv" "mv \<le> 8"
  shows "(applyMove board mv player = Inl InvalidMove \<longleftrightarrow> board ! nat mv \<noteq> None)
       \<and> (board ! nat mv = None \<longrightarrow>
            (\<exists>board'. applyMove board mv player = Inr board'
               \<and> board' ! nat mv = Some player))"
proof -
  from assms have inside: "at board mv = Some (board ! nat mv)"
    by (simp add: at_def)
  have n: "nat mv < length board" using assms by simp
  show ?thesis
  proof (cases "board ! nat mv")
    case None
    with inside n show ?thesis by (simp add: applyMove_def)
  next
    case (Some p)
    with inside show ?thesis by (simp add: applyMove_def)
  qed
qed

theorem C5_applyMove_error_iff_occupied_witness:
  "applyMove [None, None, None, None, Some PlayerX, None, None, None, None] 4 PlayerO
     = Inl InvalidMove
   \<and> (\<exists>board'. applyMove [None, None, None, None, Some PlayerX, None, None, None, None] 2 PlayerO
          = Inr board' \<and> board' ! nat 2 = Some PlayerO)"
  using C5_applyMove_error_iff_occupied
          [of "[None, None, None, None, Some PlayerX, None, None, None, None]" 4 PlayerO]
        C5_applyMove_error_iff_occupied
          [of "[None, None, None, None, Some PlayerX, None, None, None, None]" 2 PlayerO]
  by simp

text \<open>
  C7. \<open>terminal\<close> is true exactly when \<open>calculateWinner\<close> yields a mark or no empty
  cell remains, that is when \<open>availableMoves\<close> is empty; this holds of every board, so
  of every board of alternating play.
\<close>

theorem C7_terminal_iff_winner_or_full:
  "terminal board = (calculateWinner board \<noteq> None \<or> None \<notin> set board)
   \<and> (None \<notin> set board) = (availableMoves board = [])"
proof
  have full: "list_all (\<lambda>sq. sq \<noteq> None) board = (None \<notin> set board)"
    unfolding list_all_iff by metis
  then show "terminal board = (calculateWinner board \<noteq> None \<or> None \<notin> set board)"
    by (simp add: terminal_def)
  show "(None \<notin> set board) = (availableMoves board = [])"
    by (simp only: availableMoves_Nil_iff full)
qed

theorem C7_terminal_iff_winner_or_full_witness:
  "terminal [Some PlayerX, Some PlayerO, Some PlayerX,
             Some PlayerX, Some PlayerO, Some PlayerO,
             Some PlayerO, Some PlayerX, Some PlayerX]
   \<and> calculateWinner [Some PlayerX, Some PlayerO, Some PlayerX,
                       Some PlayerX, Some PlayerO, Some PlayerO,
                       Some PlayerO, Some PlayerX, Some PlayerX] = None
   \<and> availableMoves [Some PlayerX, Some PlayerO, Some PlayerX,
                      Some PlayerX, Some PlayerO, Some PlayerO,
                      Some PlayerO, Some PlayerX, Some PlayerX] = []
   \<and> \<not> terminal [Some PlayerX, None, None, None, Some PlayerO, None, None, None, None]"
proof -
  have "calculateWinner [Some PlayerX, Some PlayerO, Some PlayerX,
                         Some PlayerX, Some PlayerO, Some PlayerO,
                         Some PlayerO, Some PlayerX, Some PlayerX] = None"
    and "calculateWinner [Some PlayerX, None, None, None, Some PlayerO, None, None, None, None]
           = None"
    by code_simp+
  with C7_terminal_iff_winner_or_full
         [of "[Some PlayerX, Some PlayerO, Some PlayerX,
               Some PlayerX, Some PlayerO, Some PlayerO,
               Some PlayerO, Some PlayerX, Some PlayerX]"]
       C7_terminal_iff_winner_or_full
         [of "[Some PlayerX, None, None, None, Some PlayerO, None, None, None, None]"]
  show ?thesis by simp
qed

text \<open>
  C8. The eight lines are the three rows, then the three columns, then the two
  diagonals, and on every board, malformed ones included, \<open>calculateWinner\<close> returns the
  mark of the first line in that order that a single mark occupies, and \<open>null\<close> when no
  line is so occupied.
\<close>

theorem C8_winner_is_first_line_in_order:
  "winningLines = rows @ columns @ diagonals
   \<and> calculateWinner board = firstLineMark board winningLines
   \<and> (calculateWinner board = Some p \<longleftrightarrow>
        (\<exists>k < length winningLines. lineMark board (winningLines ! k) = Some p
           \<and> (\<forall>j < k. lineMark board (winningLines ! j) = None)))
   \<and> (calculateWinner board = None \<longleftrightarrow>
        (\<forall>k < length winningLines. lineMark board (winningLines ! k) = None))"
proof (intro conjI)
  show "winningLines = rows @ columns @ diagonals"
    by (simp add: winningLines_def rows_def columns_def diagonals_def)
  show "calculateWinner board = firstLineMark board winningLines"
    by (rule calculateWinner_first)
  show "calculateWinner board = Some p \<longleftrightarrow>
        (\<exists>k < length winningLines. lineMark board (winningLines ! k) = Some p
           \<and> (\<forall>j < k. lineMark board (winningLines ! j) = None))"
    unfolding calculateWinner_first by (rule firstLineMark_Some_iff)
  show "calculateWinner board = None \<longleftrightarrow>
        (\<forall>k < length winningLines. lineMark board (winningLines ! k) = None)"
    unfolding calculateWinner_first by (rule firstLineMark_None_iff)
qed

theorem C8_winner_is_first_line_in_order_witness:
  "calculateWinner [Some PlayerO, None, Some PlayerX,
                    Some PlayerO, None, Some PlayerX,
                    Some PlayerO, None, Some PlayerX] = Some PlayerO
   \<and> firstLineMark [Some PlayerO, None, Some PlayerX,
                    Some PlayerO, None, Some PlayerX,
                    Some PlayerO, None, Some PlayerX] winningLines = Some PlayerO
   \<and> lineMark [Some PlayerO, None, Some PlayerX,
               Some PlayerO, None, Some PlayerX,
               Some PlayerO, None, Some PlayerX] [2, 5, 8] = Some PlayerX"
proof -
  have "firstLineMark [Some PlayerO, None, Some PlayerX,
                       Some PlayerO, None, Some PlayerX,
                       Some PlayerO, None, Some PlayerX] winningLines = Some PlayerO"
    and "lineMark [Some PlayerO, None, Some PlayerX,
                   Some PlayerO, None, Some PlayerX,
                   Some PlayerO, None, Some PlayerX] [2, 5, 8] = Some PlayerX"
    by code_simp+
  with C8_winner_is_first_line_in_order
         [of "[Some PlayerO, None, Some PlayerX,
               Some PlayerO, None, Some PlayerX,
               Some PlayerO, None, Some PlayerX]" PlayerO]
  show ?thesis by simp
qed

text \<open>
  C9. \<open>applyMove\<close> on an empty cell yields a fresh board that differs from the input
  in the target cell only; the input array, and every board allocated before, is left
  as it was. The store-level function agrees with the value-level one.
\<close>

theorem C9_applyMove_frame:
  assumes "board < length h" "at (h ! board) mv = Some None"
  shows "\<exists>newBoard h'. applyMove_heap h board mv player = Inr (newBoard, h')
           \<and> newBoard \<noteq> board
           \<and> length h \<le> newBoard
           \<and> take (length h) h' = h
           \<and> h' ! board = h ! board
           \<and> applyMove (h ! board) mv player = Inr (h' ! newBoard)
           \<and> length (h' ! newBoard) = length (h ! board)
           \<and> (h' ! newBoard) ! nat mv = Some player
           \<and> filter (\<lambda>i. (h' ! newBoard) ! i \<noteq> (h ! board) ! i) [0..<length (h ! board)]
               = [nat mv]"
proof -
  let ?b = "h ! board"
  let ?h' = "(h @ [?b])[length h := ((h @ [?b]) ! length h)[nat mv := Some player]]"
  from assms(2) have mv: "0 \<le> mv" "nat mv < length ?b" "?b ! nat mv = None"
    by (auto simp: at_def split: if_splits)
  have run: "applyMove_heap h board mv player = Inr (length h, ?h')"
    using assms(2) by (simp add: applyMove_heap_def Let_def)
  have new: "?h' ! length h = ?b[nat mv := Some player]"
    by simp
  have old: "take (length h) ?h' = h"
    by simp
  have same: "?h' ! board = ?b"
    using assms(1) by (simp add: nth_append)
  have diff: "filter (\<lambda>i. (?b[nat mv := Some player]) ! i \<noteq> ?b ! i) [0..<length ?b] = [nat mv]"
  proof -
    have "(\<lambda>i. (?b[nat mv := Some player]) ! i \<noteq> ?b ! i) = (\<lambda>i. i = nat mv)"
      using mv by (auto simp: fun_eq_iff nth_list_update)
    then have "filter (\<lambda>i. (?b[nat mv := Some player]) ! i \<noteq> ?b ! i) [0..<length ?b]
          = filter (\<lambda>i. i = nat mv) [0..<length ?b]"
      by simp
    also have "\<dots> = [nat mv]"
    proof -
      have "[0..<length ?b] = [0..<nat mv] @ nat mv # [Suc (nat mv)..<length ?b]"
        using mv(2) by (metis le0 less_imp_le_nat upt_add_eq_append upt_conv_Cons
            le_add_diff_inverse plus_nat.add_0)
      then show ?thesis by (simp add: filter_empty_conv)
    qed
    finally show ?thesis .
  qed
  show ?thesis
    using run new old same diff mv assms(1)
    by (intro exI[of _ "length h"] exI[of _ ?h']) (simp add: applyMove_def assms(2))
qed

theorem C9_applyMove_frame_witness:
  "\<exists>newBoard h'.
      applyMove_heap [[Some PlayerX, None, None, None, None, None, None, None, None]] 0 4 PlayerO
        = Inr (newBoard, h')
      \<and> newBoard \<noteq> 0
      \<and> h' ! 0 = [Some PlayerX, None, None, None, None, None, None, None, None]
      \<and> (h' ! newBoard) ! nat 4 = Some PlayerO"
proof -
  have "at ([[Some PlayerX, None, None, None, None, None, None, None, None]] ! 0) 4 = Some None"
    by (simp add: at_def)
  from C9_applyMove_frame[OF _ this, of PlayerO] show ?thesis
    by auto
qed

text \<open>
  C10. On a nine-cell board an index outside \<open>[0,8]\<close> reads \<open>undefined\<close>, which is not
  \<open>null\<close>, so \<open>applyMove\<close> raises the same error; whatever the index, a board it
  returns has nine cells again and the index was inside the board.
\<close>

theorem C10_applyMove_out_of_range:
  assumes "length board = 9"
  shows "(mv < 0 \<or> 8 < mv \<longrightarrow> applyMove board mv player = Inl InvalidMove)
       \<and> (\<forall>board'. applyMove board mv player = Inr board' \<longrightarrow>
             length board' = 9 \<and> 0 \<le> mv \<and> mv \<le> 8 \<and> board ! nat mv = None)"
proof (intro conjI impI allI)
  assume "mv < 0 \<or> 8 < mv"
  with assms have "at board mv = None" by (auto simp: at_def)
  then show "applyMove board mv player = Inl InvalidMove" by (simp add: applyMove_def)
next
  fix board' assume "applyMove board mv player = Inr board'"
  then have r: "0 \<le> mv" "nat mv < length board" "board ! nat mv = None"
    "board' = board[nat mv := Some player]"
    by (simp_all add: applyMove_Inr_iff)
  from r(4) assms show "length board' = 9" by simp
  from r(1) show "0 \<le> mv" .
  from r(2) assms show "mv \<le> 8" by simp
  from r(3) show "board ! nat mv = None" .
qed

theorem C10_applyMove_out_of_range_witness:
  "applyMove (replicate 9 None) 9 PlayerX = Inl InvalidMove
   \<and> applyMove (replicate 9 None) (- 1) PlayerX = Inl InvalidMove
   \<and> (\<exists>board'. applyMove (replicate 9 None) 8 PlayerX = Inr board' \<and> length board' = 9)"
proof -
  have e: "\<exists>board'. applyMove (replicate 9 None) 8 PlayerX = Inr board'"
    by (simp add: applyMove_def at_def)
  with C10_applyMove_out_of_range[of "replicate 9 None" 9 PlayerX]
       C10_applyMove_out_of_range[of "replicate 9 None" "- 1" PlayerX]
       C10_applyMove_out_of_range[of "replicate 9 None" 8 PlayerX]
  show ?thesis by auto
qed

section \<open>The move the search returns\<close>

lemma minimaxAB_eq:
  "minimaxAB board player =
     Inr (move (if player = PlayerX then bruteForceMax board else bruteForceMin board))"
  by (simp add: minimaxAB_def maxValueAB_root minValueAB_root)

lemma bruteForce_terminal:
  "terminal board \<Longrightarrow> bruteForceMax board = \<lparr>value = utility board, move = None\<rparr>"
  "terminal board \<Longrightarrow> bruteForceMin board = \<lparr>value = utility board, move = None\<rparr>"
  by (simp_all add: bruteForceMax.simps bruteForceMin.simps)

lemma moveValue_fun:
  "moveValue board PlayerX = (\<lambda>mv. value (bruteForceMin (board[nat mv := Some PlayerX])))"
  "moveValue board PlayerO = (\<lambda>mv. value (bruteForceMax (board[nat mv := Some PlayerO])))"
  by (simp_all add: fun_eq_iff moveValue_def)

lemma positionValue_max:
  "\<not> terminal board \<Longrightarrow>
   positionValue board PlayerX = foldl max NegInfinity (map (moveValue board PlayerX) (availableMoves board))"
  by (simp add: positionValue_def moveValue_fun bruteForceMax.simps pickMax_value comp_def)

lemma positionValue_min:
  "\<not> terminal board \<Longrightarrow>
   positionValue board PlayerO = foldl min Infinity (map (moveValue board PlayerO) (availableMoves board))"
  by (simp add: positionValue_def moveValue_fun bruteForceMin.simps pickMin_value comp_def)

lemma positionValue_utilities: "positionValue board player \<in> utilities"
  by (simp add: positionValue_def bruteForce_utilities)

lemma optimalMoves_nonempty:
  assumes "\<not> terminal board"
  shows "optimalMoves board player \<noteq> []"
proof -
  let ?vs = "map (moveValue board player) (availableMoves board)"
  from assms have ne: "?vs \<noteq> []" by (simp add: not_terminal_moves)
  have "positionValue board player \<in> set ?vs"
  proof (cases player)
    case PlayerX
    with foldl_max_bottom[OF ne] assms show ?thesis by (simp add: positionValue_max)
  next
    case PlayerO
    with foldl_min_top[OF ne] assms show ?thesis by (simp add: positionValue_min)
  qed
  then obtain mv where "mv \<in> set (availableMoves board)"
    "moveValue board player mv = positionValue board player" by auto
  then have "mv \<in> set (optimalMoves board player)" by (simp add: optimalMoves_def)
  then show ?thesis by auto
qed

lemma bruteForce_move:
  assumes "\<not> terminal board"
  shows "move (bruteForceMax board) = Some (hd (optimalMoves board PlayerX))"
    and "move (bruteForceMin board) = Some (hd (optimalMoves board PlayerO))"
proof -
  have x: "positionValue board PlayerX \<noteq> NegInfinity"
    using positionValue_utilities[of board PlayerX] by (auto simp: utilities_def)
  have "move (bruteForceMax board) =
          move (pickMax (map (\<lambda>mv. (mv, moveValue board PlayerX mv)) (availableMoves board))
                  NegInfinity None)"
    using assms by (simp add: bruteForceMax.simps moveValue_def)
  also have "\<dots> = Some (hd (optimalMoves board PlayerX))"
    using x unfolding pickMax_move positionValue_max[OF assms, symmetric]
    by (simp add: optimalMoves_def)
  finally show "move (bruteForceMax board) = Some (hd (optimalMoves board PlayerX))" .
  have o: "positionValue board PlayerO \<noteq> Infinity"
    using positionValue_utilities[of board PlayerO] by (auto simp: utilities_def)
  have "move (bruteForceMin board) =
          move (pickMin (map (\<lambda>mv. (mv, moveValue board PlayerO mv)) (availableMoves board))
                  Infinity None)"
    using assms by (simp add: bruteForceMin.simps moveValue_def)
  also have "\<dots> = Some (hd (optimalMoves board PlayerO))"
    using o unfolding pickMin_move positionValue_min[OF assms, symmetric]
    by (simp add: optimalMoves_def)
  finally show "move (bruteForceMin board) = Some (hd (optimalMoves board PlayerO))" .
qed

lemma minimaxAB_move:
  assumes "\<not> terminal board"
  shows "minimaxAB board player = Inr (Some (hd (optimalMoves board player)))"
  using bruteForce_move[OF assms] by (cases player) (simp_all add: minimaxAB_eq)

lemma hd_optimalMoves:
  assumes "\<not> terminal board"
  shows "hd (optimalMoves board player) \<in> set (availableMoves board)"
    and "moveValue board player (hd (optimalMoves board player)) = positionValue board player"
proof -
  from optimalMoves_nonempty[OF assms]
  have "hd (optimalMoves board player) \<in> set (optimalMoves board player)" by simp
  then show "hd (optimalMoves board player) \<in> set (availableMoves board)"
    and "moveValue board player (hd (optimalMoves board player)) = positionValue board player"
    by (simp_all add: optimalMoves_def)
qed

lemma sorted_hd_Min:
  fixes xs :: "int list"
  assumes "sorted_wrt (<) xs" "xs \<noteq> []"
  shows "Min (set xs) = hd xs"
proof (cases xs)
  case Nil
  with assms(2) show ?thesis by simp
next
  case (Cons x ys)
  with assms(1) have "\<forall>y \<in> set ys. x \<le> y" by auto
  then have "Min (insert x (set ys)) = x"
    by (intro Min_eqI) auto
  with Cons show ?thesis by simp
qed

lemma optimalMoves_sorted: "sorted_wrt (<) (optimalMoves board player)"
  unfolding optimalMoves_def by (intro sorted_wrt_filter availableMoves_sorted)

lemma moveValue_bound:
  assumes "\<not> terminal board" "mv \<in> set (availableMoves board)"
  shows "moveValue board PlayerX mv \<le> positionValue board PlayerX"
    and "positionValue board PlayerO \<le> moveValue board PlayerO mv"
proof -
  from assms(2) have "moveValue board PlayerX mv
      \<in> set (map (moveValue board PlayerX) (availableMoves board))" by simp
  then show "moveValue board PlayerX mv \<le> positionValue board PlayerX"
    unfolding positionValue_max[OF assms(1)] by (rule foldl_max_ge_elem)
  from assms(2) have "moveValue board PlayerO mv
      \<in> set (map (moveValue board PlayerO) (availableMoves board))" by simp
  then show "positionValue board PlayerO \<le> moveValue board PlayerO mv"
    unfolding positionValue_min[OF assms(1)] by (rule foldl_min_le_elem)
qed

section \<open>Games against the engine\<close>

lemma filter_update_count:
  "n < length xs \<Longrightarrow>
   length (filter P (xs[n := y])) + (if P (xs ! n) then 1 else 0)
     = length (filter P xs) + (if P y then 1 else 0)"
proof (induction xs arbitrary: n)
  case Nil
  then show ?case by simp
next
  case (Cons x xs)
  show ?case
  proof (cases n)
    case 0
    then show ?thesis by simp
  next
    case (Suc k)
    with Cons.prems have "k < length xs" by simp
    from Cons.IH[OF this] Suc show ?thesis by simp
  qed
qed

lemma applyMove_counts:
  assumes "applyMove board mv player = Inr board'"
  shows "length (filter (\<lambda>sq. sq = Some q) board')
           = length (filter (\<lambda>sq. sq = Some q) board) + (if q = player then 1 else 0)"
proof -
  from assms have r: "nat mv < length board" "board ! nat mv = None"
    "board' = board[nat mv := Some player]"
    by (simp_all add: applyMove_Inr_iff)
  from filter_update_count[OF r(1), of "\<lambda>sq. sq = Some q" "Some player"] r(2,3)
  show ?thesis by auto
qed

lemma alternating_step:
  assumes "alternating board" "applyMove board mv (getCurrentPlayer board) = Inr board'"
  shows "alternating board'"
    and "getCurrentPlayer board = PlayerX \<Longrightarrow> getCurrentPlayer board' = PlayerO"
    and "getCurrentPlayer board = PlayerO \<Longrightarrow> getCurrentPlayer board' = PlayerX"
proof -
  define nx where "nx = length (filter (\<lambda>sq. sq = Some PlayerX) board)"
  define no where "no = length (filter (\<lambda>sq. sq = Some PlayerO) board)"
  define nx' where "nx' = length (filter (\<lambda>sq. sq = Some PlayerX) board')"
  define no' where "no' = length (filter (\<lambda>sq. sq = Some PlayerO) board')"
  have alt: "nx = no \<or> nx = no + 1"
    using assms(1) by (simp add: alternating_def Let_def nx_def no_def)
  have cur: "getCurrentPlayer board = (if nx = no then PlayerX else PlayerO)"
    by (simp add: getCurrentPlayer_def Let_def nx_def no_def)
  have cur': "getCurrentPlayer board' = (if nx' = no' then PlayerX else PlayerO)"
    by (simp add: getCurrentPlayer_def Let_def nx'_def no'_def)
  have alt': "alternating board' = (nx' = no' \<or> nx' = no' + 1)"
    by (simp add: alternating_def Let_def nx'_def no'_def)
  have step: "nx' = nx + (if nx = no then 1 else 0) \<and> no' = no + (if nx = no then 0 else 1)"
  proof (cases "nx = no")
    case True
    with cur assms(2) have am: "applyMove board mv PlayerX = Inr board'" by simp
    from applyMove_counts[OF am, of PlayerX] applyMove_counts[OF am, of PlayerO] True
    show ?thesis by (simp add: nx_def no_def nx'_def no'_def)
  next
    case False
    with cur assms(2) have am: "applyMove board mv PlayerO = Inr board'" by simp
    from applyMove_counts[OF am, of PlayerX] applyMove_counts[OF am, of PlayerO] False
    show ?thesis by (simp add: nx_def no_def nx'_def no'_def)
  qed
  from alt step show "alternating board'"
    unfolding alt' by (cases "nx = no") simp_all
  from alt step show "getCurrentPlayer board = PlayerX \<Longrightarrow> getCurrentPlayer board' = PlayerO"
    unfolding cur cur' by (cases "nx = no") simp_all
  from alt step show "getCurrentPlayer board = PlayerO \<Longrightarrow> getCurrentPlayer board' = PlayerX"
    unfolding cur cur' by (cases "nx = no") simp_all
qed

lemma reachable_alternating: "reachable board \<Longrightarrow> alternating board"
proof (induction rule: reachable.induct)
  case start
  show ?case by (simp add: alternating_def initialBoard_def)
next
  case (step board mv board')
  from step.IH step.hyps(3) show ?case by (rule alternating_step(1))
qed

lemma moveValue_positionValue:
  "moveValue board PlayerX mv = positionValue (board[nat mv := Some PlayerX]) PlayerO"
  "moveValue board PlayerO mv = positionValue (board[nat mv := Some PlayerO]) PlayerX"
  by (simp_all add: moveValue_def positionValue_def)

text \<open>
  A step of the game never lowers the position's value for the engine: its own move
  keeps the value, a move of the other side cannot take it below.
\<close>

lemma gameStep_applyMove:
  assumes "gameStep engine board board'"
  shows "\<not> terminal board"
    and "\<exists>mv. applyMove board mv (getCurrentPlayer board) = Inr board'
           \<and> mv \<in> set (availableMoves board)
           \<and> (getCurrentPlayer board = engine \<longrightarrow> mv = hd (optimalMoves board engine))"
proof -
  show "\<not> terminal board" using assms by (cases rule: gameStep.cases) simp_all
  from assms show "\<exists>mv. applyMove board mv (getCurrentPlayer board) = Inr board'
           \<and> mv \<in> set (availableMoves board)
           \<and> (getCurrentPlayer board = engine \<longrightarrow> mv = hd (optimalMoves board engine))"
  proof (cases rule: gameStep.cases)
    case (engineMove mv)
    from engineMove(3) minimaxAB_move[OF engineMove(1), of engine]
    have "mv = hd (optimalMoves board engine)" by simp
    moreover from engineMove(4) have "mv \<in> set (availableMoves board)"
      by (simp add: availableMoves_iff applyMove_def split: if_splits)
    ultimately show ?thesis using engineMove(2,4) by auto
  next
    case (opponentMove mv)
    from opponentMove(3) have "mv \<in> set (availableMoves board)"
      by (simp add: availableMoves_iff applyMove_def split: if_splits)
    with opponentMove(2,3) show ?thesis by auto
  qed
qed

lemma gameStep_alternating:
  assumes "gameStep engine board board'" "alternating board"
  shows "alternating board'"
proof -
  from gameStep_applyMove(2)[OF assms(1)] obtain mv where
    "applyMove board mv (getCurrentPlayer board) = Inr board'" by blast
  with assms(2) show ?thesis by (rule alternating_step(1))
qed

lemma gameStep_value_X:
  assumes "gameStep PlayerX board board'" "alternating board"
  shows "positionValue board (getCurrentPlayer board)
           \<le> positionValue board' (getCurrentPlayer board')"
proof -
  note nt = gameStep_applyMove(1)[OF assms(1)]
  from gameStep_applyMove(2)[OF assms(1)] obtain mv where
    am: "applyMove board mv (getCurrentPlayer board) = Inr board'"
    and av: "mv \<in> set (availableMoves board)"
    and best: "getCurrentPlayer board = PlayerX \<longrightarrow> mv = hd (optimalMoves board PlayerX)"
    by blast
  from am have b': "board' = board[nat mv := Some (getCurrentPlayer board)]"
    by (simp add: applyMove_Inr_iff)
  show ?thesis
  proof (cases "getCurrentPlayer board")
    case PlayerX
    with best hd_optimalMoves(2)[OF nt, of PlayerX]
    have "moveValue board PlayerX mv = positionValue board PlayerX" by simp
    with alternating_step(2)[OF assms(2) am PlayerX] PlayerX b'
    show ?thesis by (simp add: moveValue_positionValue)
  next
    case PlayerO
    with alternating_step(3)[OF assms(2) am PlayerO] moveValue_bound(2)[OF nt av] b'
    show ?thesis by (simp add: moveValue_positionValue)
  qed
qed

lemma gameStep_value_O:
  assumes "gameStep PlayerO board board'" "alternating board"
  shows "positionValue board' (getCurrentPlayer board')
           \<le> positionValue board (getCurrentPlayer board)"
proof -
  note nt = gameStep_applyMove(1)[OF assms(1)]
  from gameStep_applyMove(2)[OF assms(1)] obtain mv where
    am: "applyMove board mv (getCurrentPlayer board) = Inr board'"
    and av: "mv \<in> set (availableMoves board)"
    and best: "getCurrentPlayer board = PlayerO \<longrightarrow> mv = hd (optimalMoves board PlayerO)"
    by blast
  from am have b': "board' = board[nat mv := Some (getCurrentPlayer board)]"
    by (simp add: applyMove_Inr_iff)
  show ?thesis
  proof (cases "getCurrentPlayer board")
    case PlayerO
    with best hd_optimalMoves(2)[OF nt, of PlayerO]
    have "moveValue board PlayerO mv = positionValue board PlayerO" by simp
    with alternating_step(3)[OF assms(2) am PlayerO] PlayerO b'
    show ?thesis by (simp add: moveValue_positionValue)
  next
    case PlayerX
    with alternating_step(2)[OF assms(2) am PlayerX] moveValue_bound(1)[OF nt av] b'
    show ?thesis by (simp add: moveValue_positionValue)
  qed
qed

lemma positionValue_terminal: "terminal board \<Longrightarrow> positionValue board player = utility board"
  by (simp add: positionValue_def bruteForce_terminal)

lemma finishedGame_value_X:
  "finishedGame PlayerX board final \<Longrightarrow> alternating board \<Longrightarrow>
   positionValue board (getCurrentPlayer board) \<le> utility final"
proof (induction rule: finishedGame.induct)
  case (finished board)
  then show ?case by (simp add: positionValue_terminal)
next
  case (played board board' final)
  from played.hyps(1) played.prems have alt: "alternating board'"
    by (rule gameStep_alternating)
  from played.hyps(1) played.prems
  have "positionValue board (getCurrentPlayer board)
          \<le> positionValue board' (getCurrentPlayer board')"
    by (rule gameStep_value_X)
  also have "\<dots> \<le> utility final" using alt by (rule played.IH)
  finally show ?case .
qed

lemma finishedGame_value_O:
  "finishedGame PlayerO board final \<Longrightarrow> alternating board \<Longrightarrow>
   utility final \<le> positionValue board (getCurrentPlayer board)"
proof (induction rule: finishedGame.induct)
  case (finished board)
  then show ?case by (simp add: positionValue_terminal)
next
  case (played board board' final)
  from played.hyps(1) played.prems have alt: "alternating board'"
    by (rule gameStep_alternating)
  have "utility final \<le> positionValue board' (getCurrentPlayer board')"
    using alt by (rule played.IH)
  also from played.hyps(1) played.prems
  have "\<dots> \<le> positionValue board (getCurrentPlayer board)"
    by (rule gameStep_value_O)
  finally show ?case .
qed

text \<open>Every game comes to an end: from any board some finished game exists.\<close>

lemma finishedGame_exists: "\<exists>final. finishedGame engine board final"
proof (induction board rule: measure_induct_rule[of emptyCount])
  case (less board)
  show ?case
  proof (cases "terminal board")
    case True
    then show ?thesis by (auto intro: finishedGame.finished)
  next
    case False
    let ?p = "getCurrentPlayer board"
    let ?mv = "hd (optimalMoves board ?p)"
    from hd_optimalMoves(1)[OF False, of ?p]
    have am: "applyMove board ?mv ?p = Inr (board[nat ?mv := Some ?p])"
      by (rule applyMove_available)
    have "gameStep engine board (board[nat ?mv := Some ?p])"
    proof (cases "?p = engine")
      case True
      from False True minimaxAB_move[OF False, of engine] am
      show ?thesis by (intro gameStep.engineMove[where mv = ?mv]) simp_all
    next
      case ne: False
      from False ne am show ?thesis by (rule gameStep.opponentMove)
    qed
    moreover from less[OF applyMove_emptyCount[OF am]]
    obtain final where "finishedGame engine (board[nat ?mv := Some ?p]) final" by blast
    ultimately show ?thesis by (auto intro: finishedGame.played)
  qed
qed

text \<open>
  The empty board is not lost for X: a search of the code with the window \<open>(-1, 0)\<close>
  returns 0, which by the fail-soft property bounds the minimax value from below. So
  the engine playing X from the start of a game never loses. (The matching upper bound,
  which the engine playing O would need, is a far longer evaluation and is left out.)
\<close>

lemma initialBoard_lower:
  "maxValueAB initialBoard (Num (- 1)) (Num 0) = Inr \<lparr>value = Num 0, move = Some 0\<rparr>"
  by code_simp

lemma initialBoard_value_lower: "Num 0 \<le> positionValue initialBoard PlayerX"
proof -
  have "failSoft (Num (- 1)) (Num 0) (Num 0) (value (bruteForceMax initialBoard))"
    using alphabeta_failSoft(1)[of "Num (- 1)" "Num 0" initialBoard]
    by (simp add: initialBoard_lower)
  then show ?thesis
    by (simp add: failSoft_def positionValue_def)
qed

corollary engineX_never_loses_from_initialBoard:
  assumes "finishedGame PlayerX initialBoard final"
  shows "Num 0 \<le> utility final"
proof -
  have alt: "alternating initialBoard"
    by (simp add: alternating_def initialBoard_def)
  have cur: "getCurrentPlayer initialBoard = PlayerX"
    by (simp add: getCurrentPlayer_def initialBoard_def)
  from initialBoard_value_lower cur
  have "Num 0 \<le> positionValue initialBoard (getCurrentPlayer initialBoard)" by simp
  also from assms alt have "\<dots> \<le> utility final" by (rule finishedGame_value_X)
  finally show ?thesis .
qed

section \<open>Claims about the search\<close>

text \<open>
  C2. Called with the window \<open>(-\<infinity>, +\<infinity>)\<close>, both pruned evaluators return the very
  result, value and move, of unpruned minimax with the same move order and the same
  strict-improvement rule. This holds of every board, reachable or not.
\<close>

theorem C2_pruning_is_pure_optimization:
  "maxValueAB board NegInfinity Infinity = Inr (bruteForceMax board)
   \<and> minValueAB board NegInfinity Infinity = Inr (bruteForceMin board)"
proof
  show "maxValueAB board NegInfinity Infinity = Inr (bruteForceMax board)"
    by (rule maxValueAB_root)
  show "minValueAB board NegInfinity Infinity = Inr (bruteForceMin board)"
    by (rule minValueAB_root)
qed

theorem C2_pruning_is_pure_optimization_witness:
  "maxValueAB [Some PlayerX, Some PlayerX, None, Some PlayerO, Some PlayerO, None, None, None, None]
      NegInfinity Infinity = Inr \<lparr>value = Num 1, move = Some 2\<rparr>
   \<and> bruteForceMax
        [Some PlayerX, Some PlayerX, None, Some PlayerO, Some PlayerO, None, None, None, None]
      = \<lparr>value = Num 1, move = Some 2\<rparr>"
proof -
  have "maxValueAB
          [Some PlayerX, Some PlayerX, None, Some PlayerO, Some PlayerO, None, None, None, None]
          NegInfinity Infinity = Inr \<lparr>value = Num 1, move = Some 2\<rparr>"
    by code_simp
  with C2_pruning_is_pure_optimization
         [of "[Some PlayerX, Some PlayerX, None, Some PlayerO, Some PlayerO, None, None, None, None]"]
  show ?thesis by simp
qed

text \<open>
  C3. On a board that is not terminal, for either player, \<open>minimaxAB\<close> returns a move
  that \<open>availableMoves\<close> lists: the index of an empty cell, in \<open>[0,8]\<close> on a nine-cell
  board. Reachable boards with the player to move are among these.
\<close>

theorem C3_bestMove_is_available:
  assumes "\<not> terminal board"
  shows "\<exists>mv. minimaxAB board player = Inr (Some mv)
           \<and> mv \<in> set (availableMoves board)
           \<and> at board mv = Some None
           \<and> (length board = 9 \<longrightarrow> 0 \<le> mv \<and> mv \<le> 8)"
proof -
  let ?mv = "hd (optimalMoves board player)"
  have ret: "minimaxAB board player = Inr (Some ?mv)"
    using assms by (rule minimaxAB_move)
  have av: "?mv \<in> set (availableMoves board)"
    using assms by (rule hd_optimalMoves)
  then have empty: "at board ?mv = Some None"
    by (simp add: availableMoves_iff)
  then have "0 \<le> ?mv \<and> ?mv < int (length board)"
    by (auto simp: at_def split: if_splits)
  with ret av empty show ?thesis by auto
qed

theorem C3_bestMove_is_available_witness:
  "minimaxAB [Some PlayerX, None, Some PlayerO, None, Some PlayerO, Some PlayerX, None, Some PlayerX, None]
     PlayerX = Inr (Some 6)
   \<and> availableMoves
        [Some PlayerX, None, Some PlayerO, None, Some PlayerO, Some PlayerX, None, Some PlayerX, None]
      = [1, 3, 6, 8]"
proof -
  have "\<not> terminal
          [Some PlayerX, None, Some PlayerO, None, Some PlayerO, Some PlayerX, None, Some PlayerX, None]"
    and "minimaxAB
           [Some PlayerX, None, Some PlayerO, None, Some PlayerO, Some PlayerX, None, Some PlayerX, None]
           PlayerX = Inr (Some 6)"
    and "availableMoves
           [Some PlayerX, None, Some PlayerO, None, Some PlayerO, Some PlayerX, None, Some PlayerX, None]
         = [1, 3, 6, 8]"
    by code_simp+
  with C3_bestMove_is_available
         [of "[Some PlayerX, None, Some PlayerO, None, Some PlayerO, Some PlayerX, None,
               Some PlayerX, None]" PlayerX]
  show ?thesis by simp
qed

text \<open>
  C4, as the specification has it: on a terminal board \<open>minimaxAB\<close> raises an error.
  The code returns \<open>null\<close> instead: on the full drawn board below both calls return
  normally, with no move.
\<close>

theorem C4_terminal_board_counterexample:
  "terminal [Some PlayerX, Some PlayerO, Some PlayerX,
             Some PlayerX, Some PlayerO, Some PlayerO,
             Some PlayerO, Some PlayerX, Some PlayerX]
   \<and> minimaxAB [Some PlayerX, Some PlayerO, Some PlayerX,
                 Some PlayerX, Some PlayerO, Some PlayerO,
                 Some PlayerO, Some PlayerX, Some PlayerX] PlayerX = Inr None
   \<and> minimaxAB [Some PlayerX, Some PlayerO, Some PlayerX,
                 Some PlayerX, Some PlayerO, Some PlayerO,
                 Some PlayerO, Some PlayerX, Some PlayerX] PlayerO = Inr None"
  by code_simp

text \<open>
  C4, amended: on every terminal board and for either player \<open>minimaxAB\<close> returns
  normally and returns \<open>null\<close>, no move; it raises nothing.
\<close>

theorem C4_terminal_board_returns_null:
  assumes "terminal board"
  shows "minimaxAB board player = Inr None"
proof (cases player)
  case PlayerX
  with assms show ?thesis
    by (simp add: minimaxAB_def maxValueAB.simps)
next
  case PlayerO
  with assms show ?thesis
    by (simp add: minimaxAB_def minValueAB.simps)
qed

theorem C4_terminal_board_returns_null_witness:
  "terminal [Some PlayerX, Some PlayerX, Some PlayerX, Some PlayerO, Some PlayerO, None, None, None, None]
   \<and> minimaxAB
        [Some PlayerX, Some PlayerX, Some PlayerX, Some PlayerO, Some PlayerO, None, None, None, None]
        PlayerO = Inr None"
proof -
  have t: "terminal
      [Some PlayerX, Some PlayerX, Some PlayerX, Some PlayerO, Some PlayerO, None, None, None, None]"
    by code_simp
  from t C4_terminal_board_returns_null[OF t, of PlayerO] show ?thesis by simp
qed

text \<open>
  C6. The search is a function of the board and the player, so a repeated call returns
  the same move. On a board that is not terminal that move is the least index among
  the optimal moves, those whose resulting position has the minimax value of the board;
  no available move does better for the player than that value.
\<close>

theorem C6_lowest_index_optimal_move:
  assumes "\<not> terminal board"
  shows "optimalMoves board player \<noteq> []
       \<and> minimaxAB board player = Inr (Some (Min (set (optimalMoves board player))))
       \<and> set (optimalMoves board player) \<subseteq> set (availableMoves board)
       \<and> list_all (\<lambda>mv. if player = PlayerX
                         then moveValue board player mv \<le> positionValue board player
                         else positionValue board player \<le> moveValue board player mv)
            (availableMoves board)"
proof (intro conjI)
  show ne: "optimalMoves board player \<noteq> []"
    using assms by (rule optimalMoves_nonempty)
  have "Min (set (optimalMoves board player)) = hd (optimalMoves board player)"
    using optimalMoves_sorted ne by (rule sorted_hd_Min)
  then show "minimaxAB board player = Inr (Some (Min (set (optimalMoves board player))))"
    using minimaxAB_move[OF assms, of player] by simp
  show "set (optimalMoves board player) \<subseteq> set (availableMoves board)"
    by (simp add: optimalMoves_def)
  show "list_all (\<lambda>mv. if player = PlayerX
                         then moveValue board player mv \<le> positionValue board player
                         else positionValue board player \<le> moveValue board player mv)
            (availableMoves board)"
    using moveValue_bound[OF assms] by (cases player) (simp_all add: list_all_iff)
qed

theorem C6_lowest_index_optimal_move_witness:
  "optimalMoves [Some PlayerX, Some PlayerO, Some PlayerX, Some PlayerO, Some PlayerX,
                 None, None, None, None] PlayerO = [5, 6, 7, 8]
   \<and> minimaxAB [Some PlayerX, Some PlayerO, Some PlayerX, Some PlayerO, Some PlayerX,
                 None, None, None, None] PlayerO = Inr (Some 5)"
proof -
  have "\<not> terminal [Some PlayerX, Some PlayerO, Some PlayerX, Some PlayerO, Some PlayerX,
                      None, None, None, None]"
    and "optimalMoves [Some PlayerX, Some PlayerO, Some PlayerX, Some PlayerO, Some PlayerX,
                       None, None, None, None] PlayerO = [5, 6, 7, 8]"
    by code_simp+
  with C6_lowest_index_optimal_move
         [of "[Some PlayerX, Some PlayerO, Some PlayerX, Some PlayerO, Some PlayerX,
               None, None, None, None]" PlayerO]
  show ?thesis by simp
qed

section \<open>The engine in play\<close>

text \<open>
  C1, as the specification has it: from every reachable board and for either side, a
  game the engine plays to the end never ends in a loss for the engine. This fails on
  a reachable board that is already lost: after X 0, O 1, X 2, O 3, X 4 the engine
  plays O, answers with 5, and X completes the diagonal 2-4-6.
\<close>

theorem C1_engine_loses_lost_position_counterexample:
  "reachable [Some PlayerX, Some PlayerO, Some PlayerX, Some PlayerO, Some PlayerX,
              None, None, None, None]
   \<and> finishedGame PlayerO
        [Some PlayerX, Some PlayerO, Some PlayerX, Some PlayerO, Some PlayerX,
         None, None, None, None]
        [Some PlayerX, Some PlayerO, Some PlayerX, Some PlayerO, Some PlayerX,
         Some PlayerO, Some PlayerX, None, None]
   \<and> utility [Some PlayerX, Some PlayerO, Some PlayerX, Some PlayerO, Some PlayerX,
               Some PlayerO, Some PlayerX, None, None] = Num 1
   \<and> \<not> utility [Some PlayerX, Some PlayerO, Some PlayerX, Some PlayerO, Some PlayerX,
                 Some PlayerO, Some PlayerX, None, None] \<le> Num 0"
proof -
  let ?b1 = "[Some PlayerX, None, None, None, None, None, None, None, None]"
  let ?b2 = "[Some PlayerX, Some PlayerO, None, None, None, None, None, None, None]"
  let ?b3 = "[Some PlayerX, Some PlayerO, Some PlayerX, None, None, None, None, None, None]"
  let ?b4 = "[Some PlayerX, Some PlayerO, Some PlayerX, Some PlayerO, None, None, None, None, None]"
  let ?b5 = "[Some PlayerX, Some PlayerO, Some PlayerX, Some PlayerO, Some PlayerX,
              None, None, None, None]"
  let ?b6 = "[Some PlayerX, Some PlayerO, Some PlayerX, Some PlayerO, Some PlayerX,
              Some PlayerO, None, None, None]"
  let ?b7 = "[Some PlayerX, Some PlayerO, Some PlayerX, Some PlayerO, Some PlayerX,
              Some PlayerO, Some PlayerX, None, None]"
  have r1: "reachable ?b1"
    by (rule reachable.step[OF reachable.start, where mv = 0]) code_simp+
  have r2: "reachable ?b2"
    by (rule reachable.step[OF r1, where mv = 1]) code_simp+
  have r3: "reachable ?b3"
    by (rule reachable.step[OF r2, where mv = 2]) code_simp+
  have r4: "reachable ?b4"
    by (rule reachable.step[OF r3, where mv = 3]) code_simp+
  have r5: "reachable ?b5"
    by (rule reachable.step[OF r4, where mv = 4]) code_simp+
  have e: "gameStep PlayerO ?b5 ?b6"
    by (rule gameStep.engineMove[where mv = 5]) code_simp+
  have o: "gameStep PlayerO ?b6 ?b7"
    by (rule gameStep.opponentMove[where mv = 6]) code_simp+
  have f: "finishedGame PlayerO ?b7 ?b7"
    by (rule finishedGame.finished) code_simp
  have g: "finishedGame PlayerO ?b5 ?b7"
    using e o f by (blast intro: finishedGame.played)
  have u: "utility ?b7 = Num 1" by code_simp
  from r5 g u show ?thesis by simp
qed

text \<open>
  C1, amended: from every board of alternating play (every reachable board is one)
  whose minimax value, for the side to move, is not already a loss for the engine's
  side, the engine playing every move of that side through \<open>minimaxAB\<close> against
  arbitrary legal moves reaches the end of the game, and every finished game has
  utility at least 0 when the engine plays X and at most 0 when it plays O.
\<close>

theorem C1_engine_never_loses_from_unlost_position:
  assumes "alternating board"
    and "if engine = PlayerX then Num 0 \<le> positionValue board (getCurrentPlayer board)
         else positionValue board (getCurrentPlayer board) \<le> Num 0"
  shows "(\<exists>final. finishedGame engine board final)
       \<and> (\<forall>final. finishedGame engine board final \<longrightarrow>
             (if engine = PlayerX then Num 0 \<le> utility final else utility final \<le> Num 0))"
proof
  show "\<exists>final. finishedGame engine board final"
    by (rule finishedGame_exists)
  show "\<forall>final. finishedGame engine board final \<longrightarrow>
             (if engine = PlayerX then Num 0 \<le> utility final else utility final \<le> Num 0)"
  proof (intro allI impI)
    fix final assume g: "finishedGame engine board final"
    show "if engine = PlayerX then Num 0 \<le> utility final else utility final \<le> Num 0"
    proof (cases engine)
      case PlayerX
      with assms(2) have "Num 0 \<le> positionValue board (getCurrentPlayer board)" by simp
      also from g assms(1) PlayerX
      have "\<dots> \<le> utility final" by (simp add: finishedGame_value_X)
      finally show ?thesis using PlayerX by simp
    next
      case PlayerO
      from g assms(1) PlayerO
      have "utility final \<le> positionValue board (getCurrentPlayer board)"
        by (simp add: finishedGame_value_O)
      also from assms(2) PlayerO have "\<dots> \<le> Num 0" by simp
      finally show ?thesis using PlayerO by simp
    qed
  qed
qed

theorem C1_engine_never_loses_from_unlost_position_witness:
  "alternating [Some PlayerX, Some PlayerO, Some PlayerX, None, Some PlayerX,
                None, Some PlayerO, None, None]
   \<and> positionValue [Some PlayerX, Some PlayerO, Some PlayerX, None, Some PlayerX,
                     None, Some PlayerO, None, None] PlayerO = Num 0
   \<and> finishedGame PlayerX
        [Some PlayerX, Some PlayerO, Some PlayerX, None, Some PlayerX,
         None, Some PlayerO, None, None]
        [Some PlayerX, Some PlayerO, Some PlayerX, Some PlayerO, Some PlayerX,
         None, Some PlayerO, None, Some PlayerX]
   \<and> Num 0 \<le> utility [Some PlayerX, Some PlayerO, Some PlayerX, Some PlayerO, Some PlayerX,
                        None, Some PlayerO, None, Some PlayerX]"
proof -
  let ?b = "[Some PlayerX, Some PlayerO, Some PlayerX, None, Some PlayerX,
             None, Some PlayerO, None, None]"
  let ?b1 = "[Some PlayerX, Some PlayerO, Some PlayerX, Some PlayerO, Some PlayerX,
              None, Some PlayerO, None, None]"
  let ?b2 = "[Some PlayerX, Some PlayerO, Some PlayerX, Some PlayerO, Some PlayerX,
              None, Some PlayerO, None, Some PlayerX]"
  have alt: "alternating ?b" by code_simp
  have cur: "getCurrentPlayer ?b = PlayerO" by code_simp
  have val: "positionValue ?b PlayerO = Num 0" by code_simp
  have o: "gameStep PlayerX ?b ?b1"
    by (rule gameStep.opponentMove[where mv = 3]) code_simp+
  have e: "gameStep PlayerX ?b1 ?b2"
    by (rule gameStep.engineMove[where mv = 8]) code_simp+
  have f: "finishedGame PlayerX ?b2 ?b2"
    by (rule finishedGame.finished) code_simp
  have g: "finishedGame PlayerX ?b ?b2"
    using o e f by (blast intro: finishedGame.played)
  from C1_engine_never_loses_from_unlost_position[of ?b PlayerX] alt cur val g
  show ?thesis by auto
qed

end
